theory Spec2Isabelle
  imports Main "HOL-Library.Char_ord" "HOL-Library.List_Lexorder" "HOL-Library.Sublist"
    "HOL-Library.Word"
begin

section \<open>Python strings\<close>

text \<open>
  A Python \<open>str\<close> is modelled as a \<open>string\<close> whose characters are the code points
  below 256 (Latin-1), so that \<open>CHR 0xF3\<close> is the letter o with acute accent of the
  Spanish markers. Strings are compared as Python compares them: lexicographically by
  code point (\<open>Char_ord\<close>, \<open>List_Lexorder\<close>).
\<close>

definition newline :: char where
  "newline = CHR 0x0A"

text \<open>\<open>sub in s\<close> and \<open>s.find(sub)\<close>.\<close>

fun find_sub :: "string \<Rightarrow> string \<Rightarrow> nat option" where
  "find_sub sub [] = (if sub = [] then Some 0 else None)"
| "find_sub sub (c # cs) =
     (if prefix sub (c # cs) then Some 0 else map_option Suc (find_sub sub cs))"

definition contains :: "string \<Rightarrow> string \<Rightarrow> bool" where
  "contains sub s = (find_sub sub s \<noteq> None)"

text \<open>
  \<open>s.split(sep)\<close> for a separator that is not empty (the source only splits on
  literals): the pieces between the occurrences of \<open>sep\<close>, found from the left. The
  first argument bounds the number of cuts; \<open>py_split\<close> allows one cut per character,
  which is always enough (\<open>split_fuel_enough\<close> below).
\<close>

fun split_fuel :: "nat \<Rightarrow> string \<Rightarrow> string \<Rightarrow> string list" where
  "split_fuel 0 sep s = [s]"
| "split_fuel (Suc n) sep s =
     (case find_sub sep s of
        None \<Rightarrow> [s]
      | Some i \<Rightarrow> take i s # split_fuel n sep (drop (i + length sep) s))"

definition py_split :: "string \<Rightarrow> string \<Rightarrow> string list" where
  "py_split sep s = split_fuel (length s) sep s"

text \<open>\<open>str.isspace\<close> on the code points below 256, and \<open>s.strip()\<close>.\<close>

definition py_isspace :: "char \<Rightarrow> bool" where
  "py_isspace c =
     (c \<in> set [CHR 0x09, CHR 0x0A, CHR 0x0B, CHR 0x0C, CHR 0x0D, CHR 0x1C, CHR 0x1D,
                CHR 0x1E, CHR 0x1F, CHR 0x20, CHR 0x85, CHR 0xA0])"

definition py_strip :: "string \<Rightarrow> string" where
  "py_strip s = rev (dropWhile py_isspace (rev (dropWhile py_isspace s)))"

text \<open>
  \<open>s.lower()\<close> on the code points below 256: the letters A to Z and the accented
  capitals 0xC0 to 0xDE (0xD7, the multiplication sign, apart) move up by 32.
\<close>

definition upper_chars :: "char list" where
  "upper_chars =
     ''ABCDEFGHIJKLMNOPQRSTUVWXYZ'' @
     [CHR 0xC0, CHR 0xC1, CHR 0xC2, CHR 0xC3, CHR 0xC4, CHR 0xC5, CHR 0xC6, CHR 0xC7,
      CHR 0xC8, CHR 0xC9, CHR 0xCA, CHR 0xCB, CHR 0xCC, CHR 0xCD, CHR 0xCE, CHR 0xCF,
      CHR 0xD0, CHR 0xD1, CHR 0xD2, CHR 0xD3, CHR 0xD4, CHR 0xD5, CHR 0xD6,
      CHR 0xD8, CHR 0xD9, CHR 0xDA, CHR 0xDB, CHR 0xDC, CHR 0xDD, CHR 0xDE]"

definition lower_chars :: "char list" where
  "lower_chars =
     ''abcdefghijklmnopqrstuvwxyz'' @
     [CHR 0xE0, CHR 0xE1, CHR 0xE2, CHR 0xE3, CHR 0xE4, CHR 0xE5, CHR 0xE6, CHR 0xE7,
      CHR 0xE8, CHR 0xE9, CHR 0xEA, CHR 0xEB, CHR 0xEC, CHR 0xED, CHR 0xEE, CHR 0xEF,
      CHR 0xF0, CHR 0xF1, CHR 0xF2, CHR 0xF3, CHR 0xF4, CHR 0xF5, CHR 0xF6,
      CHR 0xF8, CHR 0xF9, CHR 0xFA, CHR 0xFB, CHR 0xFC, CHR 0xFD, CHR 0xFE]"

definition lower_char :: "char \<Rightarrow> char" where
  "lower_char c = (case map_of (zip upper_chars lower_chars) c of Some d \<Rightarrow> d | None \<Rightarrow> c)"

definition py_lower :: "string \<Rightarrow> string" where
  "py_lower s = map lower_char s"


text \<open>\<open>d.get(key, default)\<close> on a dictionary of strings.\<close>

definition dict_get :: "(string \<times> string) list \<Rightarrow> string \<Rightarrow> string \<Rightarrow> string" where
  "dict_get d k dflt = (case map_of d k of Some v \<Rightarrow> v | None \<Rightarrow> dflt)"

section \<open>Gateway records\<close>

text \<open>
  A timestamp of a gateway response is a string (ISO-8601 text) or a \<open>datetime\<close>
  object, modelled as an instant. The dictionaries of the responses become records with
  one optional field for each key that the program reads.
\<close>

type_synonym bytes = "8 word list"

datatype pytime = TStr string | TDate int

record image_rec =
  img_format :: "string option"
  img_bytes :: bytes

record block =
  b_text :: "string option"
  b_image :: "image_rec option"

record session_rec =
  sessionMetadata :: "(string \<times> string) list option"
  metadata :: "(string \<times> string) list option"
  creationDateTime :: "pytime option"
  endDateTime :: "pytime option"

record session_response =
  session :: "session_rec option"
  session_top :: session_rec

record invocation_summary =
  invocationId :: "string option"
  createdAt :: "pytime option"
  description :: "string option"

record step_summary =
  invocationStepId :: "string option"
  invocationStepTime :: "pytime option"

record payload_rec =
  contentBlocks :: "block list option"

record step_details =
  details_invocationStepTime :: "pytime option"
  payload :: "payload_rec option"

record step_response =
  invocationStep :: "step_details option"
  step_top :: step_details

section \<open>Exceptions, console output and gateway calls\<close>

datatype exn =
    ClientError string
  | KeyError string
  | TypeError
  | OtherError string

datatype call =
    GetSession string
  | CreateInvocation string string
  | PutInvocationStep string string string string "block list"
  | GetInvocationStep string string "string option"
  | ListInvocations string
  | ListInvocationSteps string string
  | DeleteSession string

record audit_log =
  action :: string
  session_id :: string
  audit_timestamp :: string
  reason :: string
  approver :: string

datatype msg =
    RecordingStep
  | SessionValidated
  | SessionNotAccessible string exn
  | NoInvocationIdInResponse
  | FullResponse "string option"
  | InvocationCreated string
  | AttemptFailed nat exn
  | CreateInvocationFailed nat exn
  | NoValidInvocationId
  | ImageLoaded nat string
  | ImageNotFound string
  | ImageError string exn
  | StepRecorded string string string
  | VerificationOk
  | VerificationFailed exn
  | StoreStepFailed exn
  | RetrievingContext
  | NoSessionMetadata
  | UnexpectedStepStructure "string option"
  | ComponentDetected string
  | StepError "string option" exn
  | InvocationError "string option" exn
  | ContextSummary nat nat nat nat
  | ContextRetrieved
  | SessionNotFound string
  | RetrieveError exn
  | UnexpectedError exn
  | AuditRecord audit_log
  | DeleteCancelled
  | SessionDeleted string
  | DeleteError exn

text \<open>
  What the program does to the outside, in the order it does it: a gateway call, a line
  on the console, a pause of \<open>time.sleep\<close>, a question of \<open>Confirm.ask\<close>.
\<close>

datatype event =
    Call call
  | Print msg
  | Sleep nat
  | Ask

text \<open>
  The gateway is outside the program: each operation answers with a response or raises,
  and its answer may depend on every call that it has received before (the first
  argument). The response of \<open>create_invocation\<close> is its \<open>invocationId\<close> entry, of the
  two list operations their summaries entry.
\<close>

record world =
  get_session :: "call list \<Rightarrow> string \<Rightarrow> exn + session_response"
  create_invocation :: "call list \<Rightarrow> string \<Rightarrow> string \<Rightarrow> exn + string option"
  put_invocation_step ::
    "call list \<Rightarrow> string \<Rightarrow> string \<Rightarrow> string \<Rightarrow> string \<Rightarrow> block list \<Rightarrow> exn + unit"
  get_invocation_step ::
    "call list \<Rightarrow> string \<Rightarrow> string \<Rightarrow> string option \<Rightarrow> exn + step_response"
  list_invocations :: "call list \<Rightarrow> string \<Rightarrow> exn + invocation_summary list option"
  list_invocation_steps ::
    "call list \<Rightarrow> string \<Rightarrow> string \<Rightarrow> exn + step_summary list option"
  delete_session :: "call list \<Rightarrow> string \<Rightarrow> exn + unit"

text \<open>A path of the local file system: no file, a file that cannot be read, or its bytes.\<close>

datatype file_state = Missing | Unreadable exn | Readable bytes

definition calls_of :: "event list \<Rightarrow> call list" where
  "calls_of tr = concat (map (\<lambda>e. case e of Call c \<Rightarrow> [c] | _ \<Rightarrow> []) tr)"

definition sleeps_of :: "event list \<Rightarrow> nat list" where
  "sleeps_of tr = concat (map (\<lambda>e. case e of Sleep n \<Rightarrow> [n] | _ \<Rightarrow> []) tr)"

section \<open>store_diagnostic_step\<close>

definition o_acute :: char where
  "o_acute = CHR 0xF3"

definition invocation_description :: "(string \<times> string) list \<Rightarrow> string \<Rightarrow> string" where
  "invocation_description diagnostics_data engineer_id =
     ''Diagn'' @ [o_acute] @ ''stico en '' @
     dict_get diagnostics_data ''component'' ''sistema desconocido'' @ '' por '' @ engineer_id"

definition falsy :: "string option \<Rightarrow> bool" where
  "falsy v = (case v of None \<Rightarrow> True | Some s \<Rightarrow> s = [])"

text \<open>
  The retry loop over \<open>range(max_retries)\<close>. The first component of the result is the
  value of an early \<open>return\<close>, the second is \<open>invocation_id\<close> when the loop is left.
\<close>

fun invocation_loop ::
  "world \<Rightarrow> string \<Rightarrow> string \<Rightarrow> nat \<Rightarrow> nat list \<Rightarrow> string option \<Rightarrow> event list \<Rightarrow>
   (bool \<times> string option \<times> string option) option \<times> string option \<times> event list" where
  "invocation_loop w sid descr max_retries [] invocation_id tr = (None, invocation_id, tr)"
| "invocation_loop w sid descr max_retries (retry # rest) invocation_id tr =
     (case create_invocation w (calls_of tr) sid descr of
        Inr response \<Rightarrow>
          (if falsy response
           then invocation_loop w sid descr max_retries rest response
                  (tr @ [Call (CreateInvocation sid descr), Print NoInvocationIdInResponse,
                         Print (FullResponse response)])
           else (None, response,
                 tr @ [Call (CreateInvocation sid descr),
                       Print (InvocationCreated (the response))]))
      | Inl e \<Rightarrow>
          (if retry < max_retries - 1
           then invocation_loop w sid descr max_retries rest invocation_id
                  (tr @ [Call (CreateInvocation sid descr), Print (AttemptFailed (retry + 1) e),
                         Sleep 1])
           else (Some (False, None, None), invocation_id,
                 tr @ [Call (CreateInvocation sid descr),
                       Print (CreateInvocationFailed max_retries e)])))"

definition format_data :: "(string \<times> string) list \<Rightarrow> string \<Rightarrow> string" where
  "format_data diagnostics_data engineer_id =
     ''## Paso de diagn'' @ [o_acute] @ ''stico'' @ [newline, newline] @
     ''**Ingeniero:** '' @ engineer_id @ [newline] @
     ''**Componente:** '' @ dict_get diagnostics_data ''component'' ''No especificado'' @ [newline] @
     ''**Acci'' @ [o_acute] @ ''n ejecutada:** '' @
       dict_get diagnostics_data ''action'' ''No especificada'' @ [newline, newline] @
     ''**Resultado observado:**'' @ [newline] @
       dict_get diagnostics_data ''result'' ''No documentado'' @ [newline, newline] @
     ''**Siguiente acci'' @ [o_acute] @ ''n recomendada:**'' @ [newline] @
       dict_get diagnostics_data ''next_steps'' ''No definida''"

definition img_format_of :: "string \<Rightarrow> string" where
  "img_format_of screenshot_path =
     (let img_format = py_lower (last (py_split ''.'' screenshot_path))
      in if img_format \<notin> set [''png'', ''jpeg'', ''jpg'', ''gif'', ''webp'']
         then ''png'' else img_format)"

definition text_block :: "string \<Rightarrow> block" where
  "text_block t = \<lparr>b_text = Some t, b_image = None\<rparr>"

definition image_block :: "string \<Rightarrow> bytes \<Rightarrow> block" where
  "image_block fmt img_data =
     \<lparr>b_text = None, b_image = Some \<lparr>img_format = Some fmt, img_bytes = img_data\<rparr>\<rparr>"

text \<open>The loop over \<open>enumerate(screenshots)\<close>, from index \<open>i\<close> on.\<close>

fun load_screenshots ::
  "(string \<Rightarrow> file_state) \<Rightarrow> nat \<Rightarrow> string list \<Rightarrow> block list \<times> event list \<Rightarrow> block list \<times> event list"
  where
  "load_screenshots fs i [] (content_blocks, tr) = (content_blocks, tr)"
| "load_screenshots fs i (screenshot_path # rest) (content_blocks, tr) =
     load_screenshots fs (i + 1) rest
       (case fs screenshot_path of
          Readable img_data \<Rightarrow>
            (content_blocks @ [image_block (img_format_of screenshot_path) img_data],
             tr @ [Print (ImageLoaded (i + 1) screenshot_path)])
        | Missing \<Rightarrow> (content_blocks, tr @ [Print (ImageNotFound screenshot_path)])
        | Unreadable img_error \<Rightarrow>
            (content_blocks, tr @ [Print (ImageError screenshot_path img_error)]))"

definition max_retries :: nat where
  "max_retries = 3"

text \<open>
  The function after the retry loop, entered with an \<open>invocation_id\<close> that is not
  empty: the content blocks, the write and its verification. \<open>now\<close> is the value of
  \<open>datetime.now().isoformat()\<close> and \<open>step_id\<close> the value of \<open>str(uuid.uuid4())\<close>
  of this run.
\<close>

definition write_step ::
  "world \<Rightarrow> (string \<Rightarrow> file_state) \<Rightarrow> string \<Rightarrow> string \<Rightarrow> string \<Rightarrow> string \<Rightarrow>
   (string \<times> string) list \<Rightarrow> string list option \<Rightarrow> string \<Rightarrow> event list \<Rightarrow>
   (bool \<times> string option \<times> string option) \<times> event list" where
  "write_step w fs now step_id session_identifier engineer_id diagnostics_data screenshots
     invocation_id tr =
     (let formatted_data = format_data diagnostics_data engineer_id;
          (content_blocks, tr3) =
            (case screenshots of
               None \<Rightarrow> ([text_block formatted_data], tr)
             | Some paths \<Rightarrow> load_screenshots fs 0 paths ([text_block formatted_data], tr));
          put = PutInvocationStep session_identifier invocation_id step_id now content_blocks
      in case put_invocation_step w (calls_of tr3) session_identifier invocation_id step_id now
                content_blocks of
           Inl e \<Rightarrow>
             ((False, Some invocation_id, None), tr3 @ [Call put, Print (StoreStepFailed e)])
         | Inr _ \<Rightarrow>
             (let tr4 = tr3 @ [Call put,
                               Print (StepRecorded session_identifier invocation_id step_id)];
                  get = GetInvocationStep session_identifier invocation_id (Some step_id)
              in case get_invocation_step w (calls_of tr4) session_identifier invocation_id
                        (Some step_id) of
                   Inr _ \<Rightarrow>
                     ((True, Some invocation_id, Some step_id),
                      tr4 @ [Call get, Print VerificationOk])
                 | Inl e \<Rightarrow>
                     ((True, Some invocation_id, Some step_id),
                      tr4 @ [Call get, Print (VerificationFailed e)])))"

text \<open>
  The result is the returned triple and the trace extended by what the run did. The types
  leave nothing for the outermost handler of the source to catch.
\<close>

definition store_diagnostic_step ::
  "world \<Rightarrow> (string \<Rightarrow> file_state) \<Rightarrow> string \<Rightarrow> string \<Rightarrow> string \<Rightarrow> string \<Rightarrow>
   (string \<times> string) list \<Rightarrow> string list option \<Rightarrow> event list \<Rightarrow>
   (bool \<times> string option \<times> string option) \<times> event list" where
  "store_diagnostic_step w fs now step_id session_identifier engineer_id diagnostics_data
     screenshots tr =
     (let tr0 = tr @ [Print RecordingStep] in
      case get_session w (calls_of tr0) session_identifier of
        Inl e \<Rightarrow>
          ((False, None, None),
           tr0 @ [Call (GetSession session_identifier),
                  Print (SessionNotAccessible session_identifier e)])
      | Inr session_resp \<Rightarrow>
          (case invocation_loop w session_identifier
                  (invocation_description diagnostics_data engineer_id)
                  max_retries [0..<max_retries] None
                  (tr0 @ [Call (GetSession session_identifier), Print SessionValidated]) of
             (Some r, _, tr2) \<Rightarrow> (r, tr2)
           | (None, None, tr2) \<Rightarrow> ((False, None, None), tr2 @ [Print NoValidInvocationId])
           | (None, Some invocation_id, tr2) \<Rightarrow>
               if invocation_id = [] then ((False, None, None), tr2 @ [Print NoValidInvocationId])
               else write_step w fs now step_id session_identifier engineer_id diagnostics_data
                      screenshots invocation_id tr2))"

section \<open>Sorting as Python sorts\<close>

text \<open>
  \<open>sorted(xs, key=f)\<close> and \<open>xs.sort(key=f)\<close>: stable, ascending, by \<open><\<close> on the keys.
  A key is \<open>None\<close>, a string or a \<open>datetime\<close>; comparing keys of two kinds, or \<open>None\<close>
  with anything, raises \<open>TypeError\<close>. The model inserts from the right, which gives the
  result of every stable sort; it raises exactly on the lists of two or more elements
  whose keys are not all strings or all datetimes (\<open>py_sorted_raises_iff\<close> below), which are
  the lists on which any comparison sort must compare two such keys.
\<close>

datatype pykey = KNone | KStr string | KDate int

fun key_lt :: "pykey \<Rightarrow> pykey \<Rightarrow> exn + bool" where
  "key_lt (KStr a) (KStr b) = Inr (a < b)"
| "key_lt (KDate a) (KDate b) = Inr (a < b)"
| "key_lt _ _ = Inl TypeError"

fun py_insert :: "('a \<Rightarrow> pykey) \<Rightarrow> 'a \<Rightarrow> 'a list \<Rightarrow> exn + 'a list" where
  "py_insert key x [] = Inr [x]"
| "py_insert key x (y # ys) =
     (case key_lt (key y) (key x) of
        Inl e \<Rightarrow> Inl e
      | Inr True \<Rightarrow> (case py_insert key x ys of Inl e \<Rightarrow> Inl e | Inr zs \<Rightarrow> Inr (y # zs))
      | Inr False \<Rightarrow> Inr (x # y # ys))"

fun py_sorted :: "('a \<Rightarrow> pykey) \<Rightarrow> 'a list \<Rightarrow> exn + 'a list" where
  "py_sorted key [] = Inr []"
| "py_sorted key (x # xs) =
     (case py_sorted key xs of Inl e \<Rightarrow> Inl e | Inr ys \<Rightarrow> py_insert key x ys)"

definition time_key :: "pytime \<Rightarrow> pykey" where
  "time_key t = (case t of TStr s \<Rightarrow> KStr s | TDate d \<Rightarrow> KDate d)"

text \<open>\<open>x.get(k, "")\<close> as a sort key, for a timestamp entry \<open>k\<close>.\<close>

definition get_time_key :: "pytime option \<Rightarrow> pykey" where
  "get_time_key v = (case v of None \<Rightarrow> KStr [] | Some t \<Rightarrow> time_key t)"

section \<open>retrieve_diagnostic_context\<close>

record incident_info =
  incidentId :: string
  systemAffected :: string
  severity :: string
  startedAt :: pytime
  status :: string

record image_ref =
  ref_stepId :: "string option"
  ref_format :: string

record diagnostic_step =
  timestamp :: pytime
  textContent :: string
  hasImages :: bool
  imageRefs :: "image_ref list"

record timeline_entry =
  entry_timestamp :: "string option"
  entry_description :: string
  engineer :: string
  steps :: "diagnostic_step list"

record hypothesis =
  hyp_text :: string
  hyp_timestamp :: pytime
  hyp_engineer :: string

record screenshot =
  stepId :: "string option"
  shot_invocationId :: string
  shot_timestamp :: pytime
  associatedText :: string

text \<open>
  \<open>componentsTested\<close> is a Python set until the end, then a list of its elements in an
  order that Python does not fix: here a list without repetitions, \<open>set.add\<close> being
  \<open>List.insert\<close>.
\<close>

record diagnostic_context =
  incidentInfo :: incident_info
  diagnosticTimeline :: "timeline_entry list"
  hypotheses :: "hypothesis list"
  componentsTested :: "string list"
  screenshots :: "screenshot list"

definition hipotesis :: string where
  "hipotesis = ''hip'' @ [o_acute] @ ''tesis''"

text \<open>The value of \<open>component\<close> after the two branches, for a text that passed the guard.\<close>

definition component_of :: "string \<Rightarrow> string" where
  "component_of text_content =
     (if contains ''Componente:'' text_content
      then py_strip (hd (py_split [newline] (py_split ''Componente:'' text_content ! 1)))
      else if contains ''componente:'' (py_lower text_content)
      then py_strip (hd (py_split [newline]
                           (py_split ''componente:'' (py_lower text_content) ! 1)))
      else [])"

definition hypothesis_engineer :: "string \<Rightarrow> string" where
  "hypothesis_engineer text_content =
     (if contains ''Ingeniero:'' text_content
      then py_strip (hd (py_split [newline] (py_split ''Ingeniero:'' text_content ! 1)))
      else ''Unknown'')"

text \<open>The body of \<open>if 'text' in block\<close>, after \<open>text_content = block['text']\<close>.\<close>

definition scan_text ::
  "pytime \<Rightarrow> string \<Rightarrow> diagnostic_context \<times> event list \<Rightarrow> diagnostic_context \<times> event list"
  where
  "scan_text step_time text_content st =
     (let (ctx, tr) = st;
          (ctx1, tr1) =
            (if contains ''componente:'' (py_lower text_content) \<or>
                contains ''Componente:'' text_content
             then (let component = component_of text_content
                   in if component \<noteq> []
                      then (ctx\<lparr>componentsTested := List.insert component (componentsTested ctx)\<rparr>,
                            tr @ [Print (ComponentDetected component)])
                      else (ctx, tr))
             else (ctx, tr))
      in if contains hipotesis (py_lower text_content)
         then (ctx1\<lparr>hypotheses := hypotheses ctx1 @
                      [\<lparr>hyp_text = text_content, hyp_timestamp = step_time,
                        hyp_engineer = hypothesis_engineer text_content\<rparr>]\<rparr>, tr1)
         else (ctx1, tr1))"

definition associated_text :: "string \<Rightarrow> string" where
  "associated_text text_content =
     (if length text_content > 100 then take 100 text_content @ ''...'' else text_content)"

text \<open>
  One round of \<open>for block in content_blocks\<close>. \<open>step_time\<close> is
  \<open>step_details.get("invocationStepTime", "")\<close>.
\<close>

definition process_block ::
  "string option \<Rightarrow> string \<Rightarrow> pytime \<Rightarrow> block \<Rightarrow>
   string \<times> image_ref list \<times> diagnostic_context \<times> event list \<Rightarrow>
   string \<times> image_ref list \<times> diagnostic_context \<times> event list" where
  "process_block step_id invocation_id step_time blk st =
     (let (text_content0, images, ctx0, tr0) = st;
          (text_content, ctx, tr) =
            (case b_text blk of
               None \<Rightarrow> (text_content0, ctx0, tr0)
             | Some t \<Rightarrow> (let (c, r) = scan_text step_time t (ctx0, tr0) in (t, c, r)))
      in case b_image blk of
           None \<Rightarrow> (text_content, images, ctx, tr)
         | Some img \<Rightarrow>
             (text_content,
              images @ [\<lparr>ref_stepId = step_id,
                         ref_format = (case img_format img of None \<Rightarrow> ''unknown''
                                       | Some f \<Rightarrow> f)\<rparr>],
              ctx\<lparr>screenshots := screenshots ctx @
                    [\<lparr>stepId = step_id, shot_invocationId = invocation_id,
                      shot_timestamp = step_time,
                      associatedText = associated_text text_content\<rparr>]\<rparr>,
              tr))"

fun process_blocks ::
  "string option \<Rightarrow> string \<Rightarrow> pytime \<Rightarrow> block list \<Rightarrow>
   string \<times> image_ref list \<times> diagnostic_context \<times> event list \<Rightarrow>
   string \<times> image_ref list \<times> diagnostic_context \<times> event list" where
  "process_blocks step_id invocation_id step_time [] st = st"
| "process_blocks step_id invocation_id step_time (blk # rest) st =
     process_blocks step_id invocation_id step_time rest
       (process_block step_id invocation_id step_time blk st)"

definition details_time :: "step_details \<Rightarrow> pytime" where
  "details_time step_details =
     (case details_invocationStepTime step_details of None \<Rightarrow> TStr [] | Some t \<Rightarrow> t)"

definition details_of :: "step_response \<Rightarrow> step_details" where
  "details_of step_resp =
     (case invocationStep step_resp of Some d \<Rightarrow> d | None \<Rightarrow> step_top step_resp)"

text \<open>One round of the loop over the sorted steps of an invocation.\<close>

definition process_step ::
  "world \<Rightarrow> string \<Rightarrow> string \<Rightarrow> step_summary \<Rightarrow>
   diagnostic_step list \<times> diagnostic_context \<times> event list \<Rightarrow>
   diagnostic_step list \<times> diagnostic_context \<times> event list" where
  "process_step w session_identifier invocation_id step st =
     (let (diagnostic_steps, ctx, tr) = st;
          step_id = invocationStepId step;
          tr1 = tr @ [Call (GetInvocationStep session_identifier invocation_id step_id)]
      in case get_invocation_step w (calls_of tr) session_identifier invocation_id step_id of
           Inl step_error \<Rightarrow>
             (diagnostic_steps, ctx, tr1 @ [Print (StepError step_id step_error)])
         | Inr step_resp \<Rightarrow>
             (let step_details = details_of step_resp
              in case payload step_details of
                   None \<Rightarrow> (diagnostic_steps, ctx, tr1 @ [Print (UnexpectedStepStructure step_id)])
                 | Some pl \<Rightarrow>
                     (case contentBlocks pl of
                        None \<Rightarrow>
                          (diagnostic_steps, ctx,
                           tr1 @ [Print (UnexpectedStepStructure step_id)])
                      | Some content_blocks \<Rightarrow>
                          (let (text_content, images, ctx', tr') =
                                 process_blocks step_id invocation_id
                                   (details_time step_details) content_blocks
                                   ([], [], ctx, tr1)
                           in (diagnostic_steps @
                                 [\<lparr>timestamp = details_time step_details,
                                   textContent = text_content,
                                   hasImages = (length images > 0),
                                   imageRefs = images\<rparr>],
                               ctx', tr')))))"

fun process_steps ::
  "world \<Rightarrow> string \<Rightarrow> string \<Rightarrow> step_summary list \<Rightarrow>
   diagnostic_step list \<times> diagnostic_context \<times> event list \<Rightarrow>
   diagnostic_step list \<times> diagnostic_context \<times> event list" where
  "process_steps w session_identifier invocation_id [] st = st"
| "process_steps w session_identifier invocation_id (step # rest) st =
     process_steps w session_identifier invocation_id rest
       (process_step w session_identifier invocation_id step st)"

definition engineer_of :: "string \<Rightarrow> string" where
  "engineer_of descr =
     (if descr \<noteq> [] \<and> contains ''por '' descr then py_split ''por '' descr ! 1
      else ''Unknown'')"

definition creation_time_of :: "(int \<Rightarrow> string) \<Rightarrow> invocation_summary \<Rightarrow> string option" where
  "creation_time_of isoformat invoc =
     (case createdAt invoc of
        None \<Rightarrow> None
      | Some (TStr s) \<Rightarrow> Some s
      | Some (TDate d) \<Rightarrow> Some (isoformat d))"

definition description_of :: "invocation_summary \<Rightarrow> string \<Rightarrow> string" where
  "description_of invoc invocation_id =
     (case description invoc of
        None \<Rightarrow> ''Invocaci'' @ [o_acute] @ ''n '' @ invocation_id
      | Some d \<Rightarrow> d)"

text \<open>
  One round of the loop over the sorted invocations. \<open>isoformat\<close> is the method of
  \<open>datetime\<close> of that name.
\<close>

definition process_invocation ::
  "world \<Rightarrow> (int \<Rightarrow> string) \<Rightarrow> string \<Rightarrow> invocation_summary \<Rightarrow>
   diagnostic_context \<times> event list \<Rightarrow> diagnostic_context \<times> event list" where
  "process_invocation w isoformat session_identifier invoc st =
     (let (ctx, tr) = st in
      case invocationId invoc of
        None \<Rightarrow> (ctx, tr @ [Print (InvocationError None (KeyError ''invocationId''))])
      | Some invocation_id \<Rightarrow>
          (let creation_time = creation_time_of isoformat invoc;
               descr = description_of invoc invocation_id;
               tr1 = tr @ [Call (ListInvocationSteps session_identifier invocation_id)]
           in case list_invocation_steps w (calls_of tr) session_identifier invocation_id of
                Inl inv_error \<Rightarrow>
                  (ctx, tr1 @ [Print (InvocationError (Some invocation_id) inv_error)])
              | Inr steps_resp \<Rightarrow>
                  (let invocation_steps = (case steps_resp of None \<Rightarrow> [] | Some l \<Rightarrow> l)
                   in case py_sorted (\<lambda>x. get_time_key (invocationStepTime x))
                             invocation_steps of
                        Inl inv_error \<Rightarrow>
                          (ctx, tr1 @ [Print (InvocationError (Some invocation_id) inv_error)])
                      | Inr sorted_steps \<Rightarrow>
                          (let (diagnostic_steps, ctx', tr') =
                                 process_steps w session_identifier invocation_id sorted_steps
                                   ([], ctx, tr1)
                           in (ctx'\<lparr>diagnosticTimeline := diagnosticTimeline ctx' @
                                      [\<lparr>entry_timestamp = creation_time,
                                        entry_description = descr,
                                        engineer = engineer_of descr,
                                        steps = diagnostic_steps\<rparr>]\<rparr>,
                               tr')))))"

fun process_invocations ::
  "world \<Rightarrow> (int \<Rightarrow> string) \<Rightarrow> string \<Rightarrow> invocation_summary list \<Rightarrow>
   diagnostic_context \<times> event list \<Rightarrow> diagnostic_context \<times> event list" where
  "process_invocations w isoformat session_identifier [] st = st"
| "process_invocations w isoformat session_identifier (invoc # rest) st =
     process_invocations w isoformat session_identifier rest
       (process_invocation w isoformat session_identifier invoc st)"

text \<open>The two handlers at the end of the function: each prints one line and returns \<open>None\<close>.\<close>

definition retrieve_failed ::
  "string \<Rightarrow> exn \<Rightarrow> event list \<Rightarrow> diagnostic_context option \<times> event list" where
  "retrieve_failed session_identifier e tr =
     (None,
      tr @ [Print (case e of
                     ClientError code \<Rightarrow>
                       if code = ''ResourceNotFoundException''
                       then SessionNotFound session_identifier else RetrieveError e
                   | _ \<Rightarrow> UnexpectedError e)])"

definition entry_key :: "timeline_entry \<Rightarrow> pykey" where
  "entry_key x = (case entry_timestamp x of None \<Rightarrow> KNone | Some s \<Rightarrow> KStr s)"

text \<open>The last part of the function: the set becomes a list and the three lists are sorted.\<close>

definition finish_context ::
  "string \<Rightarrow> diagnostic_context \<times> event list \<Rightarrow> diagnostic_context option \<times> event list" where
  "finish_context session_identifier st =
     (let (ctx, tr) = st in
      case py_sorted entry_key (diagnosticTimeline ctx) of
        Inl e \<Rightarrow> retrieve_failed session_identifier e tr
      | Inr timeline \<Rightarrow>
          (case py_sorted (\<lambda>x. time_key (hyp_timestamp x)) (hypotheses ctx) of
             Inl e \<Rightarrow> retrieve_failed session_identifier e tr
           | Inr hyps \<Rightarrow>
               (case py_sorted (\<lambda>x. time_key (shot_timestamp x)) (screenshots ctx) of
                  Inl e \<Rightarrow> retrieve_failed session_identifier e tr
                | Inr shots \<Rightarrow>
                    (Some (ctx\<lparr>diagnosticTimeline := timeline, hypotheses := hyps,
                               screenshots := shots\<rparr>),
                     tr @ [Print (ContextSummary (length timeline)
                                    (length (componentsTested ctx)) (length hyps)
                                    (length shots)),
                           Print ContextRetrieved]))))"

definition session_of :: "session_response \<Rightarrow> session_rec" where
  "session_of session_resp =
     (case session session_resp of Some s \<Rightarrow> s | None \<Rightarrow> session_top session_resp)"

definition status_of :: "session_rec \<Rightarrow> string" where
  "status_of s =
     (case endDateTime s of
        None \<Rightarrow> ''Active''
      | Some (TStr t) \<Rightarrow> if t = [] then ''Active'' else ''Closed''
      | Some (TDate d) \<Rightarrow> ''Closed'')"

text \<open>\<open>now\<close> is the value of \<open>datetime.now().isoformat()\<close> of this run.\<close>

definition retrieve_diagnostic_context ::
  "world \<Rightarrow> (int \<Rightarrow> string) \<Rightarrow> string \<Rightarrow> string \<Rightarrow> event list \<Rightarrow>
   diagnostic_context option \<times> event list" where
  "retrieve_diagnostic_context w isoformat now session_identifier tr =
     (let tr0 = tr @ [Print RetrievingContext];
          tr1 = tr0 @ [Call (GetSession session_identifier)]
      in case get_session w (calls_of tr0) session_identifier of
           Inl e \<Rightarrow> retrieve_failed session_identifier e tr1
         | Inr session_resp \<Rightarrow>
             (let s = session_of session_resp;
                  (incident_metadata, tr2) =
                    (case sessionMetadata s of
                       Some m \<Rightarrow> (m, tr1)
                     | None \<Rightarrow>
                         (case metadata s of
                            Some m \<Rightarrow> (m, tr1)
                          | None \<Rightarrow> ([], tr1 @ [Print NoSessionMetadata])));
                  tr3 = tr2 @ [Call (ListInvocations session_identifier)]
              in case list_invocations w (calls_of tr2) session_identifier of
                   Inl e \<Rightarrow> retrieve_failed session_identifier e tr3
                 | Inr invs_resp \<Rightarrow>
                     (let invocations = (case invs_resp of None \<Rightarrow> [] | Some l \<Rightarrow> l);
                          diagnostic_context =
                            \<lparr>incidentInfo =
                               \<lparr>incidentId = dict_get incident_metadata ''incidentId'' ''Unknown'',
                                systemAffected =
                                  dict_get incident_metadata ''systemAffected'' ''Unknown'',
                                severity = dict_get incident_metadata ''severity'' ''Unknown'',
                                startedAt = (case creationDateTime s of
                                               None \<Rightarrow> TStr now | Some t \<Rightarrow> t),
                                status = status_of s\<rparr>,
                             diagnosticTimeline = [], hypotheses = [],
                             componentsTested = [], screenshots = []\<rparr>
                      in case py_sorted (\<lambda>x. get_time_key (createdAt x)) invocations of
                           Inl e \<Rightarrow> retrieve_failed session_identifier e tr3
                         | Inr sorted_invocations \<Rightarrow>
                             finish_context session_identifier
                               (process_invocations w isoformat session_identifier
                                  sorted_invocations (diagnostic_context, tr3)))))"

section \<open>delete_diagnostic_session\<close>

text \<open>The handler of the function: only a \<open>ClientError\<close> is caught, any other exception
  leaves the function (\<open>Inl\<close>).\<close>

definition delete_failed ::
  "string \<Rightarrow> exn \<Rightarrow> event list \<Rightarrow> (exn + bool) \<times> event list" where
  "delete_failed session_identifier e tr =
     (case e of
        ClientError code \<Rightarrow>
          (Inr False,
           tr @ [Print (if code = ''ResourceNotFoundException''
                        then SessionNotFound session_identifier else DeleteError e)])
      | _ \<Rightarrow> (Inl e, tr))"

text \<open>
  \<open>answer\<close> is what \<open>Confirm.ask\<close> returns, or what it raises; \<open>now\<close> is the value of
  \<open>datetime.now().isoformat()\<close>.
\<close>

definition delete_diagnostic_session ::
  "world \<Rightarrow> string \<Rightarrow> (exn + bool) \<Rightarrow> string \<Rightarrow> string \<Rightarrow> string \<Rightarrow> event list \<Rightarrow>
   (exn + bool) \<times> event list" where
  "delete_diagnostic_session w now answer session_identifier reason' approver_id tr =
     (let audit = \<lparr>action = ''session_deletion'', session_id = session_identifier,
                   audit_timestamp = now, reason = reason', approver = approver_id\<rparr>;
          tr1 = tr @ [Print (AuditRecord audit), Ask]
      in case answer of
           Inl e \<Rightarrow> delete_failed session_identifier e tr1
         | Inr False \<Rightarrow> (Inr False, tr1 @ [Print DeleteCancelled])
         | Inr True \<Rightarrow>
             (case delete_session w (calls_of tr1) session_identifier of
                Inl e \<Rightarrow>
                  delete_failed session_identifier e
                    (tr1 @ [Call (DeleteSession session_identifier)])
              | Inr _ \<Rightarrow>
                  (Inr True,
                   tr1 @ [Call (DeleteSession session_identifier),
                          Print (SessionDeleted session_identifier)])))"

section \<open>Notions used in the statements\<close>

text \<open>An attempt of the retry loop raised; an attempt failed (it raised, or its response
  carries no invocation id).\<close>

definition attempt_raised :: "exn + string option \<Rightarrow> bool" where
  "attempt_raised r = (case r of Inl e \<Rightarrow> True | Inr v \<Rightarrow> False)"

definition attempt_failed :: "exn + string option \<Rightarrow> bool" where
  "attempt_failed r = (case r of Inl e \<Rightarrow> True | Inr v \<Rightarrow> falsy v)"

definition is_put :: "event \<Rightarrow> bool" where
  "is_put e = (case e of Call (PutInvocationStep a b c d bs) \<Rightarrow> True | _ \<Rightarrow> False)"

definition readable :: "(string \<Rightarrow> file_state) \<Rightarrow> string \<Rightarrow> bool" where
  "readable fs p = (case fs p of Readable b \<Rightarrow> True | _ \<Rightarrow> False)"

text \<open>
  The content blocks that the loop over the screenshots builds, as one expression.
\<close>

definition expected_blocks ::
  "(string \<Rightarrow> file_state) \<Rightarrow> string \<Rightarrow> string list \<Rightarrow> block list" where
  "expected_blocks fs formatted paths =
     text_block formatted #
     concat (map (\<lambda>p. case fs p of Readable b \<Rightarrow> [image_block (img_format_of p) b] | _ \<Rightarrow> [])
               paths)"

text \<open>
  The same blocks as the specification describes them. The extension of a path is the
  text after its last dot (the whole path when it has no dot); the format of an image is
  its extension in lower case when that is one of the five formats, and png otherwise;
  the payload is the text block, then one image block with that format and the bytes of
  the file for each path whose file can be read, in the order of the paths.
\<close>

definition file_extension :: "string \<Rightarrow> string" where
  "file_extension path = rev (takeWhile (\<lambda>c. c \<noteq> CHR ''.'') (rev path))"

definition spec_format :: "string \<Rightarrow> string" where
  "spec_format path =
     (if py_lower (file_extension path) \<in> {''png'', ''jpeg'', ''jpg'', ''gif'', ''webp''}
      then py_lower (file_extension path) else ''png'')"

definition spec_blocks ::
  "(string \<Rightarrow> file_state) \<Rightarrow> string \<Rightarrow> string list \<Rightarrow> block list" where
  "spec_blocks fs formatted paths =
     \<lparr>b_text = Some formatted, b_image = None\<rparr> #
     concat (map (\<lambda>p. case fs p of
                        Readable content \<Rightarrow>
                          [\<lparr>b_text = None,
                            b_image = Some \<lparr>img_format = Some (spec_format p),
                                            img_bytes = content\<rparr>\<rparr>]
                      | _ \<Rightarrow> [])
               paths)"

text \<open>The components that the console reports as detected, in the order of the reports.\<close>

definition detected :: "event list \<Rightarrow> string list" where
  "detected tr =
     concat (map (\<lambda>e. case e of Print (ComponentDetected c) \<Rightarrow> [c] | _ \<Rightarrow> []) tr)"

text \<open>
  The order of Python on sort keys and on timestamps: \<open>a\<close> is not after \<open>b\<close> when
  \<open>b < a\<close> is defined and false.
\<close>

definition key_le :: "pykey \<Rightarrow> pykey \<Rightarrow> bool" where
  "key_le a b = (key_lt b a = Inr False)"

definition time_le :: "pytime \<Rightarrow> pytime \<Rightarrow> bool" where
  "time_le a b = key_le (time_key a) (time_key b)"


definition is_text_key :: "pykey \<Rightarrow> bool" where
  "is_text_key k = (case k of KStr s \<Rightarrow> True | _ \<Rightarrow> False)"

definition is_date_key :: "pykey \<Rightarrow> bool" where
  "is_date_key k = (case k of KDate d \<Rightarrow> True | _ \<Rightarrow> False)"

text \<open>Keys that Python can sort: at most one key, or strings only, or datetimes only.\<close>

definition uniform_keys :: "pykey list \<Rightarrow> bool" where
  "uniform_keys ks = (length ks \<le> 1 \<or> list_all is_text_key ks \<or> list_all is_date_key ks)"

text \<open>The timestamp of a step as its summary gives it, with the default of the sort key.\<close>

definition summary_time :: "step_summary \<Rightarrow> pytime" where
  "summary_time st = (case invocationStepTime st of None \<Rightarrow> TStr [] | Some t \<Rightarrow> t)"

text \<open>
  The gateway gives a step the same timestamp in the listing of its invocation and in
  the step itself.
\<close>

definition consistent_step_times :: "world \<Rightarrow> string \<Rightarrow> bool" where
  "consistent_step_times w sid =
     (\<forall>h i sts. list_invocation_steps w h sid i = Inr (Some sts) \<longrightarrow>
        (\<forall>st \<in> set sts. \<forall>h' r.
           get_invocation_step w h' sid i (invocationStepId st) = Inr r \<longrightarrow>
           details_time (details_of r) = summary_time st))"

text \<open>The step timestamps of a timeline, entry after entry.\<close>

definition flattened :: "timeline_entry list \<Rightarrow> pytime list" where
  "flattened timeline = concat (map (\<lambda>e. map timestamp (steps e)) timeline)"

text \<open>
  Invariants of the loops of \<open>retrieve_diagnostic_context\<close>: the collected components are
  distinct and are those that the console reports; the timestamps of the collected
  hypotheses and screenshots satisfy a given property, such as being the timestamp of a
  step that the gateway returned.
\<close>

definition components_inv :: "string set \<Rightarrow> diagnostic_context \<Rightarrow> event list \<Rightarrow> bool" where
  "components_inv D0 ctx tr =
     (distinct (componentsTested ctx) \<and> set (detected tr) = D0 \<union> set (componentsTested ctx))"

definition from_gateway :: "world \<Rightarrow> string \<Rightarrow> pytime \<Rightarrow> bool" where
  "from_gateway w sid t =
     (\<exists>h i s r. get_invocation_step w h sid i s = Inr r \<and> details_time (details_of r) = t)"

definition times_inv :: "(pytime \<Rightarrow> bool) \<Rightarrow> diagnostic_context \<Rightarrow> bool" where
  "times_inv G ctx =
     ((\<forall>h\<in>set (hypotheses ctx). G (hyp_timestamp h)) \<and>
      (\<forall>s\<in>set (screenshots ctx). G (shot_timestamp s)))"

definition metadata_events :: "session_rec \<Rightarrow> event list" where
  "metadata_events s =
     (case sessionMetadata s of Some m \<Rightarrow> []
      | None \<Rightarrow> (case metadata s of Some m \<Rightarrow> [] | None \<Rightarrow> [Print NoSessionMetadata]))"

section \<open>Example gateways\<close>

definition not_found :: exn where
  "not_found = ClientError ''ResourceNotFoundException''"

definition throttled :: exn where
  "throttled = ClientError ''ThrottlingException''"

definition demo_session :: session_response where
  "demo_session =
     \<lparr>session = None,
      session_top =
        \<lparr>sessionMetadata = Some [(''incidentId'', ''INC-1001''),
                                 (''systemAffected'', ''payment-svc''), (''severity'', ''high'')],
         metadata = None, creationDateTime = Some (TStr ''2024-05-01T10:00:00''),
         endDateTime = None\<rparr>\<rparr>"

text \<open>A gateway that knows no session.\<close>

definition absent_world :: world where
  "absent_world =
     \<lparr>get_session = (\<lambda>h s. Inl not_found),
      create_invocation = (\<lambda>h s d. Inl not_found),
      put_invocation_step = (\<lambda>h s i j t bs. Inl not_found),
      get_invocation_step = (\<lambda>h s i j. Inl not_found),
      list_invocations = (\<lambda>h s. Inl not_found),
      list_invocation_steps = (\<lambda>h s i. Inl not_found),
      delete_session = (\<lambda>h s. Inl not_found)\<rparr>"

text \<open>Invocation creation is throttled twice, then succeeds; the step write is refused.\<close>

definition flaky_world :: world where
  "flaky_world =
     absent_world
       \<lparr>get_session := (\<lambda>h s. Inr demo_session),
        create_invocation :=
          (\<lambda>h s d. if count_list h (CreateInvocation s d) < 2 then Inl throttled
                   else Inr (Some ''inv-1''))\<rparr>"

text \<open>Invocation creation is throttled, then answers without an id, then is throttled.\<close>

definition giving_up_world :: world where
  "giving_up_world =
     absent_world
       \<lparr>get_session := (\<lambda>h s. Inr demo_session),
        create_invocation :=
          (\<lambda>h s d. if count_list h (CreateInvocation s d) = 1 then Inr None
                   else Inl throttled)\<rparr>"

text \<open>Every response of invocation creation lacks the invocation id.\<close>

definition malformed_world :: world where
  "malformed_world =
     absent_world
       \<lparr>get_session := (\<lambda>h s. Inr demo_session),
        create_invocation := (\<lambda>h s d. Inr None)\<rparr>"

definition empty_details :: step_details where
  "empty_details = \<lparr>details_invocationStepTime = None, payload = None\<rparr>"

text \<open>
  Invocation creation is throttled once, then succeeds; every write of a step is accepted.
\<close>

definition retrying_world :: world where
  "retrying_world =
     absent_world
       \<lparr>get_session := (\<lambda>h s. Inr demo_session),
        create_invocation :=
          (\<lambda>h s d. if count_list h (CreateInvocation s d) < 1 then Inl throttled
                   else Inr (Some ''inv-1'')),
        put_invocation_step := (\<lambda>h s i j t bs. Inr ()),
        get_invocation_step :=
          (\<lambda>h s i j. Inr \<lparr>invocationStep = None, step_top = empty_details\<rparr>)\<rparr>"

text \<open>Two image files, one file that cannot be read, and nothing else.\<close>

definition demo_fs :: "string \<Rightarrow> file_state" where
  "demo_fs p =
     (if p = ''shots/cpu.JPG'' then Readable [0xFF, 0xD8]
      else if p = ''shots/mem.bmp'' then Readable [0x42, 0x4D]
      else if p = ''shots/locked.png'' then Unreadable (OtherError ''PermissionError'')
      else Missing)"

definition demo_data :: "(string \<times> string) list" where
  "demo_data =
     [(''component'', ''auth-service''), (''action'', ''restart''), (''result'', ''ok'')]"

text \<open>Gateways that answer from fixed tables, whatever was called before.\<close>

definition table_world ::
  "invocation_summary list \<Rightarrow> (string \<Rightarrow> step_summary list) \<Rightarrow>
   (string \<Rightarrow> string option \<Rightarrow> exn + step_response) \<Rightarrow> world" where
  "table_world invs steps_of step_of =
     absent_world
       \<lparr>get_session := (\<lambda>h s. Inr demo_session),
        get_invocation_step := (\<lambda>h s i j. step_of i j),
        list_invocations := (\<lambda>h s. Inr (Some invs)),
        list_invocation_steps := (\<lambda>h s i. Inr (Some (steps_of i)))\<rparr>"

definition text_step :: "string \<Rightarrow> string \<Rightarrow> exn + step_response" where
  "text_step t txt =
     Inr \<lparr>invocationStep = None,
          step_top = \<lparr>details_invocationStepTime = Some (TStr t),
                      payload = Some \<lparr>contentBlocks = Some [text_block txt]\<rparr>\<rparr>\<rparr>"

definition summary :: "string \<Rightarrow> string \<Rightarrow> step_summary" where
  "summary i t = \<lparr>invocationStepId = Some i, invocationStepTime = Some (TStr t)\<rparr>"

definition invocation :: "string \<Rightarrow> string \<Rightarrow> invocation_summary" where
  "invocation i t = \<lparr>invocationId = Some i, createdAt = Some (TStr t), description = None\<rparr>"

definition no_dates :: "int \<Rightarrow> string" where
  "no_dates d = []"


definition crossed_world :: world where
  "crossed_world =
     table_world [invocation ''inv-2'' ''11:00'', invocation ''inv-1'' ''10:00'']
       (\<lambda>i. if i = ''inv-1'' then [summary ''s1'' ''12:00''] else [summary ''s2'' ''11:30''])
       (\<lambda>i j. if j = Some ''s1'' then text_step ''12:00'' ''uno'' else text_step ''11:30'' ''dos'')"

definition ordered_world :: world where
  "ordered_world =
     table_world [invocation ''inv-2'' ''11:00'', invocation ''inv-1'' ''10:00'']
       (\<lambda>i. if i = ''inv-1'' then [summary ''b'' ''10:02'', summary ''a'' ''10:01'']
            else [summary ''c'' ''11:30''])
       (\<lambda>i j. if j = Some ''a'' then text_step ''10:01'' ''uno''
               else if j = Some ''b'' then text_step ''10:02'' ''dos''
               else text_step ''11:30'' ''tres'')"

definition partial_world :: world where
  "partial_world =
     table_world [invocation ''inv-1'' ''10:00'']
       (\<lambda>i. [summary ''a'' ''10:01'', summary ''b'' ''10:02'', summary ''c'' ''10:03''])
       (\<lambda>i j. if j = Some ''a'' then Inl throttled
               else if j = Some ''b''
               then Inr \<lparr>invocationStep = None, step_top = empty_details\<rparr>
               else text_step ''10:03'' ''tres'')"


definition empty_context :: diagnostic_context where
  "empty_context =
     \<lparr>incidentInfo = \<lparr>incidentId = ''INC-1001'', systemAffected = ''payment-svc'',
                      severity = ''high'', startedAt = TStr ''10:00'', status = ''Active''\<rparr>,
      diagnosticTimeline = [], hypotheses = [], componentsTested = [], screenshots = []\<rparr>"

section \<open>Traces\<close>

lemma calls_of_simps [simp]:
  "calls_of [] = []"
  "calls_of (Call c # tr) = c # calls_of tr"
  "calls_of (Print m # tr) = calls_of tr"
  "calls_of (Sleep n # tr) = calls_of tr"
  "calls_of (Ask # tr) = calls_of tr"
  "calls_of (a @ b) = calls_of a @ calls_of b"
  by (simp_all add: calls_of_def)

lemma sleeps_of_simps [simp]:
  "sleeps_of [] = []"
  "sleeps_of (Call c # tr) = sleeps_of tr"
  "sleeps_of (Print m # tr) = sleeps_of tr"
  "sleeps_of (Sleep n # tr) = n # sleeps_of tr"
  "sleeps_of (Ask # tr) = sleeps_of tr"
  "sleeps_of (a @ b) = sleeps_of a @ sleeps_of b"
  by (simp_all add: sleeps_of_def)

lemma is_put_simps [simp]:
  "is_put (Call (PutInvocationStep a b c d bs))"
  "\<not> is_put (Call (GetSession s))"
  "\<not> is_put (Call (CreateInvocation s x))"
  "\<not> is_put (Call (GetInvocationStep s i j))"
  "\<not> is_put (Print m)"
  "\<not> is_put (Sleep n)"
  by (simp_all add: is_put_def)

lemma split_unique:
  assumes "xs @ a # as = ys @ b # bs" "P b" "\<forall>x\<in>set xs. \<not> P x" "\<forall>x\<in>set as. \<not> P x"
  shows "ys = xs \<and> b = a \<and> bs = as"
  using assms
  by (auto simp: append_eq_append_conv2 Cons_eq_append_conv append_eq_Cons_conv)

lemma no_split:
  assumes "xs = ys @ b # bs" "P b" "\<forall>x\<in>set xs. \<not> P x"
  shows False
  using assms by auto

lemmas world_defs = absent_world_def flaky_world_def giving_up_world_def malformed_world_def
  retrying_world_def not_found_def throttled_def

section \<open>Recording a step\<close>

lemma range3: "[0..<max_retries] = [0, 1, 2]"
  by (simp add: max_retries_def upt_rec)

lemmas upt3 = range3[unfolded max_retries_def]

lemma load_screenshots_blocks:
  "fst (load_screenshots fs i paths (content_blocks, tr)) =
     content_blocks @
     concat (map (\<lambda>p. case fs p of Readable b \<Rightarrow> [image_block (img_format_of p) b] | _ \<Rightarrow> [])
               paths)"
  by (induction paths arbitrary: i content_blocks tr) (auto split: file_state.splits)

lemma load_screenshots_trace:
  "\<exists>evs. snd (load_screenshots fs i paths (content_blocks, tr)) = tr @ evs \<and>
         (\<forall>e \<in> set evs. \<exists>m. e = Print m)"
proof (induction paths arbitrary: i content_blocks tr)
  case Nil
  then show ?case by simp
next
  case (Cons p ps)
  show ?case
  proof (cases "fs p")
    case Missing
    from Cons[of "i + 1" content_blocks "tr @ [Print (ImageNotFound p)]"] Missing
    show ?thesis by auto
  next
    case (Unreadable x)
    from Cons[of "i + 1" content_blocks "tr @ [Print (ImageError p x)]"] Unreadable
    show ?thesis by auto
  next
    case (Readable b)
    from Cons[of "i + 1" "content_blocks @ [image_block (img_format_of p) b]"
         "tr @ [Print (ImageLoaded (i + 1) p)]"] Readable
    show ?thesis by auto
  qed
qed

lemma load_screenshots_no_put:
  "\<exists>evs. snd (load_screenshots fs i paths (content_blocks, tr)) = tr @ evs \<and>
         (\<forall>e \<in> set evs. \<not> is_put e)"
proof -
  obtain evs where E: "snd (load_screenshots fs i paths (content_blocks, tr)) = tr @ evs"
    "\<forall>e \<in> set evs. \<exists>m. e = Print m"
    using load_screenshots_trace[of fs i paths content_blocks tr] by blast
  have "\<not> is_put e" if "e \<in> set evs" for e
  proof -
    from E(2) that obtain m where "e = Print m" by blast
    then show ?thesis by simp
  qed
  with E(1) show ?thesis by blast
qed

lemma load_screenshots_calls [simp]:
  "calls_of (snd (load_screenshots fs i paths (content_blocks, tr))) = calls_of tr"
  by (induction paths arbitrary: i content_blocks tr) (auto split: file_state.splits)

lemma load_screenshots_sleeps [simp]:
  "sleeps_of (snd (load_screenshots fs i paths (content_blocks, tr))) = sleeps_of tr"
  by (induction paths arbitrary: i content_blocks tr) (auto split: file_state.splits)

lemma write_step_calls:
  "calls_of (snd (write_step w fs now step_id sid eng data shots iid tr)) =
     calls_of tr @
     PutInvocationStep sid iid step_id now
       (expected_blocks fs (format_data data eng) (case shots of None \<Rightarrow> [] | Some ps \<Rightarrow> ps)) #
     (case put_invocation_step w (calls_of tr) sid iid step_id now
             (expected_blocks fs (format_data data eng)
                (case shots of None \<Rightarrow> [] | Some ps \<Rightarrow> ps)) of
        Inl e \<Rightarrow> [] | Inr u \<Rightarrow> [GetInvocationStep sid iid (Some step_id)])"
  by (cases shots)
     (simp_all add: write_step_def Let_def case_prod_beta expected_blocks_def
        load_screenshots_blocks split: sum.splits)

lemma write_step_sleeps:
  "sleeps_of (snd (write_step w fs now step_id sid eng data shots iid tr)) = sleeps_of tr"
  by (cases shots) (simp_all add: write_step_def Let_def case_prod_beta split: sum.splits)

lemma write_step_result:
  "fst (write_step w fs now step_id sid eng data shots iid tr) =
     (case put_invocation_step w (calls_of tr) sid iid step_id now
             (expected_blocks fs (format_data data eng)
                (case shots of None \<Rightarrow> [] | Some ps \<Rightarrow> ps)) of
        Inl e \<Rightarrow> (False, Some iid, None) | Inr u \<Rightarrow> (True, Some iid, Some step_id))"
  by (cases shots)
     (simp_all add: write_step_def Let_def case_prod_beta expected_blocks_def
        load_screenshots_blocks split: sum.splits)

lemma write_step_trace:
  "\<exists>evs rest. (\<forall>e\<in>set evs. \<not> is_put e) \<and> (\<forall>e\<in>set rest. \<not> is_put e) \<and>
     snd (write_step w fs now step_id sid eng data shots iid tr) =
       tr @ evs @
       Call (PutInvocationStep sid iid step_id now
               (expected_blocks fs (format_data data eng)
                  (case shots of None \<Rightarrow> [] | Some ps \<Rightarrow> ps))) # rest \<and>
     (case put_invocation_step w (calls_of (tr @ evs)) sid iid step_id now
             (expected_blocks fs (format_data data eng)
                (case shots of None \<Rightarrow> [] | Some ps \<Rightarrow> ps)) of
        Inl e \<Rightarrow>
          fst (write_step w fs now step_id sid eng data shots iid tr) =
            (False, Some iid, None) \<and>
          rest = [Print (StoreStepFailed e)]
      | Inr u \<Rightarrow>
          fst (write_step w fs now step_id sid eng data shots iid tr) =
            (True, Some iid, Some step_id))"
proof (cases shots)
  case None
  show ?thesis
    apply (rule exI[of _ "[]"])
    using None
    by (auto simp: write_step_def Let_def expected_blocks_def split: sum.splits)
next
  case (Some paths)
  obtain evs where E:
    "snd (load_screenshots fs 0 paths ([text_block (format_data data eng)], tr)) = tr @ evs"
    "\<forall>e \<in> set evs. \<not> is_put e"
    using load_screenshots_no_put[of fs 0 paths "[text_block (format_data data eng)]" tr]
    by blast
  have C: "calls_of (tr @ evs) = calls_of tr"
    using E(1) load_screenshots_calls[of fs 0 paths "[text_block (format_data data eng)]" tr]
    by simp
  show ?thesis
    apply (rule exI[of _ evs])
    using Some E(1,2) C
    by (auto simp: write_step_def Let_def case_prod_beta expected_blocks_def
          load_screenshots_blocks split: sum.splits)
qed

lemma loop_trace:
  "invocation_loop w sid d mx ks v tr = (r, v', tr') \<Longrightarrow>
   \<exists>evs. tr' = tr @ evs \<and> (\<forall>e\<in>set evs. \<not> is_put e)"
proof (induction ks arbitrary: v tr)
  case Nil
  then show ?case by simp
next
  case (Cons k ks)
  show ?case
  proof (cases "create_invocation w (calls_of tr) sid d")
    case (Inl e)
    show ?thesis
    proof (cases "k < mx - 1")
      case True
      with Inl Cons.prems have "invocation_loop w sid d mx ks v
          (tr @ [Call (CreateInvocation sid d), Print (AttemptFailed (k + 1) e), Sleep 1]) =
          (r, v', tr')"
        by simp
      from Cons.IH[OF this] show ?thesis by auto
    next
      case False
      with Inl Cons.prems show ?thesis by auto
    qed
  next
    case (Inr resp)
    show ?thesis
    proof (cases "falsy resp")
      case True
      with Inr Cons.prems have "invocation_loop w sid d mx ks resp
          (tr @ [Call (CreateInvocation sid d), Print NoInvocationIdInResponse,
                 Print (FullResponse resp)]) = (r, v', tr')"
        by simp
      from Cons.IH[OF this] show ?thesis by auto
    next
      case False
      with Inr Cons.prems show ?thesis by auto
    qed
  qed
qed

lemma store_without_session:
  assumes "get_session w (calls_of tr) sid = Inl e"
  shows "store_diagnostic_step w fs now step_id sid eng data shots tr =
           ((False, None, None),
            tr @ [Print RecordingStep, Call (GetSession sid),
                  Print (SessionNotAccessible sid e)])"
  using assms by (simp add: store_diagnostic_step_def)

lemma store_with_session:
  assumes "get_session w (calls_of tr) sid = Inr sr"
  shows "store_diagnostic_step w fs now step_id sid eng data shots tr =
     (case invocation_loop w sid (invocation_description data eng) 3 [0, 1, 2] None
             (tr @ [Print RecordingStep, Call (GetSession sid), Print SessionValidated]) of
        (Some r, v, tr2) \<Rightarrow> (r, tr2)
      | (None, v, tr2) \<Rightarrow>
          if falsy v then ((False, None, None), tr2 @ [Print NoValidInvocationId])
          else write_step w fs now step_id sid eng data shots (the v) tr2)"
proof -
  obtain r v tr2 where L:
    "invocation_loop w sid (invocation_description data eng) 3 [0, 1, 2] None
       (tr @ [Print RecordingStep, Call (GetSession sid), Print SessionValidated]) = (r, v, tr2)"
    using prod_cases3 by blast
  show ?thesis
    unfolding store_diagnostic_step_def range3
    using assms L
    by (simp add: max_retries_def falsy_def del: invocation_loop.simps split: option.splits)
qed

section \<open>Claims about recording a step\<close>

text \<open>
  Claim C5. When the session does not exist (the gateway answers the \<open>get_session\<close> call
  of the run with an error), \<open>store_diagnostic_step\<close> returns \<open>(False, None, None)\<close> and
  \<open>get_session\<close> is the only gateway call of the run: invocation creation is never
  called and nothing is written.
\<close>

theorem store_fails_fast_without_session:
  assumes "get_session w (calls_of tr) sid = Inl e"
  shows "fst (store_diagnostic_step w fs now step_id sid eng data shots tr) =
           (False, None, None) \<and>
         calls_of (snd (store_diagnostic_step w fs now step_id sid eng data shots tr)) =
           calls_of tr @ [GetSession sid] \<and>
         (\<forall>d. CreateInvocation sid d \<notin>
                set (calls_of (drop (length tr)
                  (snd (store_diagnostic_step w fs now step_id sid eng data shots tr)))))"
  by (simp add: store_without_session[OF assms])

theorem store_fails_fast_without_session_witness:
  "get_session absent_world (calls_of []) ''s-404'' = Inl not_found \<and>
   fst (store_diagnostic_step absent_world demo_fs ''2024-05-01T10:05:00'' ''step-1'' ''s-404''
          ''ana'' demo_data None []) = (False, None, None) \<and>
   calls_of (snd (store_diagnostic_step absent_world demo_fs ''2024-05-01T10:05:00'' ''step-1''
                    ''s-404'' ''ana'' demo_data None [])) = [GetSession ''s-404'']"
proof -
  have h: "get_session absent_world (calls_of []) ''s-404'' = Inl not_found"
    by (simp add: absent_world_def)
  from store_fails_fast_without_session[OF h] h show ?thesis by simp
qed

text \<open>
  Claim C7, as the code has it. Invocation creation is attempted at most three times.
  After an attempt that raised, and is not the third, \<open>store_diagnostic_step\<close> sleeps one
  second; after an attempt whose response carries no invocation id it tries again at
  once, without a pause. When the three attempts fail it returns \<open>(False, None, None)\<close>
  and nothing else is called; its last message tells a third attempt that raised
  (\<open>CreateInvocationFailed\<close>) from a third response without an id
  (\<open>NoValidInvocationId\<close>).
\<close>

theorem create_invocation_retry_policy:
  assumes "get_session w (calls_of tr) sid = Inr sr"
    and "d = invocation_description data eng"
    and "create_invocation w (calls_of tr @ [GetSession sid]) sid d = r1"
    and "create_invocation w (calls_of tr @ [GetSession sid, CreateInvocation sid d]) sid d = r2"
    and "create_invocation w
           (calls_of tr @ [GetSession sid, CreateInvocation sid d, CreateInvocation sid d])
           sid d = r3"
    and "run = store_diagnostic_step w fs now step_id sid eng data shots tr"
  shows "count_list (calls_of (snd run)) (CreateInvocation sid d) =
           count_list (calls_of tr) (CreateInvocation sid d) +
           (if attempt_failed r1 then if attempt_failed r2 then 3 else 2 else 1) \<and>
         sleeps_of (snd run) =
           sleeps_of tr @ (if attempt_raised r1 then [1] else []) @
           (if attempt_failed r1 \<and> attempt_raised r2 then [1] else []) \<and>
         (attempt_failed r1 \<and> attempt_failed r2 \<and> attempt_failed r3 \<longrightarrow>
            fst run = (False, None, None) \<and>
            calls_of (snd run) =
              calls_of tr @ [GetSession sid, CreateInvocation sid d, CreateInvocation sid d,
                             CreateInvocation sid d] \<and>
            last (snd run) =
              Print (case r3 of Inl e \<Rightarrow> CreateInvocationFailed 3 e
                     | Inr v \<Rightarrow> NoValidInvocationId))"
  unfolding assms(6) store_with_session[OF assms(1)] assms(2)[symmetric]
  using assms(3,4,5)
  by (cases r1; cases r2; cases r3)
     (simp_all add: attempt_failed_def attempt_raised_def write_step_calls write_step_sleeps)

theorem create_invocation_retry_policy_witness:
  "fst (store_diagnostic_step giving_up_world demo_fs ''2024-05-01T10:05:00'' ''step-1''
          ''s-1'' ''ana'' demo_data None []) = (False, None, None) \<and>
   sleeps_of (snd (store_diagnostic_step giving_up_world demo_fs ''2024-05-01T10:05:00''
                     ''step-1'' ''s-1'' ''ana'' demo_data None [])) = [1] \<and>
   count_list (calls_of (snd (store_diagnostic_step giving_up_world demo_fs
                                ''2024-05-01T10:05:00'' ''step-1'' ''s-1'' ''ana'' demo_data
                                None [])))
     (CreateInvocation ''s-1'' (invocation_description demo_data ''ana'')) = 3 \<and>
   last (snd (store_diagnostic_step giving_up_world demo_fs ''2024-05-01T10:05:00''
                ''step-1'' ''s-1'' ''ana'' demo_data None [])) =
     Print (CreateInvocationFailed 3 throttled)"
proof -
  let ?d = "invocation_description demo_data ''ana''"
  have a: "get_session giving_up_world (calls_of []) ''s-1'' = Inr demo_session"
    by (simp add: giving_up_world_def)
  have r1: "create_invocation giving_up_world (calls_of [] @ [GetSession ''s-1'']) ''s-1'' ?d =
              Inl throttled"
    by (simp add: giving_up_world_def)
  have r2: "create_invocation giving_up_world
              (calls_of [] @ [GetSession ''s-1'', CreateInvocation ''s-1'' ?d]) ''s-1'' ?d =
              Inr None"
    by (simp add: giving_up_world_def)
  have r3: "create_invocation giving_up_world
              (calls_of [] @ [GetSession ''s-1'', CreateInvocation ''s-1'' ?d,
                              CreateInvocation ''s-1'' ?d]) ''s-1'' ?d = Inl throttled"
    by (simp add: giving_up_world_def)
  from create_invocation_retry_policy[OF a refl r1 r2 r3 refl, of demo_fs
         "''2024-05-01T10:05:00''" "''step-1''" None]
  show ?thesis
    by (simp add: attempt_failed_def attempt_raised_def falsy_def)
qed

theorem backoff_on_any_failure_counterexample:
  "calls_of (snd (store_diagnostic_step malformed_world demo_fs ''2024-05-01T10:05:00''
                    ''step-1'' ''s-1'' ''ana'' demo_data None [])) =
     [GetSession ''s-1'',
      CreateInvocation ''s-1'' (invocation_description demo_data ''ana''),
      CreateInvocation ''s-1'' (invocation_description demo_data ''ana''),
      CreateInvocation ''s-1'' (invocation_description demo_data ''ana'')] \<and>
   sleeps_of (snd (store_diagnostic_step malformed_world demo_fs ''2024-05-01T10:05:00''
                     ''step-1'' ''s-1'' ''ana'' demo_data None [])) = []"
  by (simp add: store_diagnostic_step_def upt3 max_retries_def falsy_def world_defs)

text \<open>
  Claim C10. In every run in which \<open>store_diagnostic_step\<close> calls
  \<open>put_invocation_step\<close> for an invocation (so that its creation has succeeded) and the
  gateway answers with an error, the result is \<open>(False, invocation_id, None)\<close> with the id
  of that invocation, and the run ends with the error message: no gateway call follows
  the failed write, so that nothing is done about the invocation that was created.
\<close>

theorem put_failure_keeps_invocation:
  assumes "store_diagnostic_step w fs now step_id sid eng data shots tr =
             (r, tr @ pre @ Call (PutInvocationStep sid' iid sid'' t blocks) # post)"
    and "put_invocation_step w (calls_of (tr @ pre)) sid' iid sid'' t blocks = Inl e"
  shows "r = (False, Some iid, None) \<and> post = [Print (StoreStepFailed e)] \<and>
         calls_of post = []"
proof (cases "get_session w (calls_of tr) sid")
  case (Inl e')
  from assms(1) have
    "[Print RecordingStep, Call (GetSession sid), Print (SessionNotAccessible sid e')] =
       pre @ Call (PutInvocationStep sid' iid sid'' t blocks) # post"
    by (simp add: store_without_session[OF Inl])
  from no_split[OF this, of is_put] show ?thesis by simp
next
  case (Inr sr)
  let ?tr1 = "tr @ [Print RecordingStep, Call (GetSession sid), Print SessionValidated]"
  let ?P = "Call (PutInvocationStep sid' iid sid'' t blocks)"
  let ?B = "expected_blocks fs (format_data data eng) (case shots of None \<Rightarrow> [] | Some ps \<Rightarrow> ps)"
  obtain r0 v tr2 where L:
    "invocation_loop w sid (invocation_description data eng) 3 [0, 1, 2] None ?tr1 =
       (r0, v, tr2)"
    using prod_cases3 by blast
  from loop_trace[OF L] obtain evs where evs: "tr2 = ?tr1 @ evs" "\<forall>e\<in>set evs. \<not> is_put e"
    by blast
  note S = store_with_session[OF Inr, of fs now step_id eng data shots, unfolded L, simplified]
  show ?thesis
  proof (cases r0)
    case (Some r')
    with S assms(1) evs(1) have
      "[Print RecordingStep, Call (GetSession sid), Print SessionValidated] @ evs =
         pre @ ?P # post"
      by simp
    from no_split[OF this, of is_put] evs(2) show ?thesis by auto
  next
    case None
    show ?thesis
    proof (cases "falsy v")
      case True
      with None S assms(1) evs(1) have
        "[Print RecordingStep, Call (GetSession sid), Print SessionValidated] @ evs @
           [Print NoValidInvocationId] = pre @ ?P # post"
        by simp
      from no_split[OF this, of is_put] evs(2) show ?thesis by auto
    next
      case False
      obtain es rest where W: "\<forall>e\<in>set es. \<not> is_put e" "\<forall>e\<in>set rest. \<not> is_put e"
        "snd (write_step w fs now step_id sid eng data shots (the v) tr2) =
           tr2 @ es @ Call (PutInvocationStep sid (the v) step_id now ?B) # rest"
        "(case put_invocation_step w (calls_of (tr2 @ es)) sid (the v) step_id now ?B of
            Inl e \<Rightarrow>
              fst (write_step w fs now step_id sid eng data shots (the v) tr2) =
                (False, Some (the v), None) \<and>
              rest = [Print (StoreStepFailed e)]
          | Inr u \<Rightarrow>
              fst (write_step w fs now step_id sid eng data shots (the v) tr2) =
                (True, Some (the v), Some step_id))"
        using write_step_trace[of w fs now step_id sid eng data shots "the v" tr2] by blast
      from None False S assms(1) have R:
        "write_step w fs now step_id sid eng data shots (the v) tr2 = (r, tr @ pre @ ?P # post)"
        by simp
      with W(3) evs(1) have
        "([Print RecordingStep, Call (GetSession sid), Print SessionValidated] @ evs @ es) @
           Call (PutInvocationStep sid (the v) step_id now ?B) # rest = pre @ ?P # post"
        by simp
      from split_unique[OF this, of is_put] evs(2) W(1,2)
      have U: "pre = [Print RecordingStep, Call (GetSession sid), Print SessionValidated] @
                       evs @ es"
        "?P = Call (PutInvocationStep sid (the v) step_id now ?B)"
        "post = rest"
        by auto
      from U(1) evs(1) have "tr @ pre = tr2 @ es" by simp
      with assms(2) U(2) W(4) R U(3) show ?thesis by simp
    qed
  qed
qed

theorem put_failure_keeps_invocation_witness:
  "store_diagnostic_step flaky_world demo_fs ''2024-05-01T10:05:00'' ''step-1'' ''s-1'' ''ana''
     demo_data None [] =
     ((False, Some ''inv-1'', None),
      [] @
      [Print RecordingStep, Call (GetSession ''s-1''), Print SessionValidated,
       Call (CreateInvocation ''s-1'' (invocation_description demo_data ''ana'')),
       Print (AttemptFailed 1 throttled), Sleep 1,
       Call (CreateInvocation ''s-1'' (invocation_description demo_data ''ana'')),
       Print (AttemptFailed 2 throttled), Sleep 1,
       Call (CreateInvocation ''s-1'' (invocation_description demo_data ''ana'')),
       Print (InvocationCreated ''inv-1'')] @
      Call (PutInvocationStep ''s-1'' ''inv-1'' ''step-1'' ''2024-05-01T10:05:00''
              [text_block (format_data demo_data ''ana'')]) #
      [Print (StoreStepFailed not_found)])"
proof -
  let ?pre = "[Print RecordingStep, Call (GetSession ''s-1''), Print SessionValidated,
       Call (CreateInvocation ''s-1'' (invocation_description demo_data ''ana'')),
       Print (AttemptFailed 1 throttled), Sleep 1,
       Call (CreateInvocation ''s-1'' (invocation_description demo_data ''ana'')),
       Print (AttemptFailed 2 throttled), Sleep 1,
       Call (CreateInvocation ''s-1'' (invocation_description demo_data ''ana'')),
       Print (InvocationCreated ''inv-1'')]"
  let ?put = "PutInvocationStep ''s-1'' ''inv-1'' ''step-1'' ''2024-05-01T10:05:00''
              [text_block (format_data demo_data ''ana'')]"
  obtain r post where run:
    "store_diagnostic_step flaky_world demo_fs ''2024-05-01T10:05:00'' ''step-1'' ''s-1''
       ''ana'' demo_data None [] = (r, [] @ ?pre @ Call ?put # post)"
    by (simp add: store_diagnostic_step_def write_step_def upt3 max_retries_def falsy_def
          world_defs)
  have fail: "put_invocation_step flaky_world (calls_of ([] @ ?pre)) ''s-1'' ''inv-1''
                ''step-1'' ''2024-05-01T10:05:00'' [text_block (format_data demo_data ''ana'')] =
              Inl not_found"
    by (simp add: flaky_world_def absent_world_def)
  from put_failure_keeps_invocation[OF run fail] run show ?thesis by simp
qed

section \<open>Python strings: splitting\<close>

lemma find_sub_Nil [simp]: "sub \<noteq> [] \<Longrightarrow> find_sub sub [] = None"
  by simp

lemma find_sub_bound:
  "find_sub sub s = Some i \<Longrightarrow> i + length sub \<le> length s"
proof (induction s arbitrary: i)
  case Nil
  then show ?case by (simp split: if_splits)
next
  case (Cons c cs)
  show ?case
  proof (cases "prefix sub (c # cs)")
    case True
    with Cons.prems have "i = 0" by simp
    with prefix_length_le[OF True] show ?thesis by simp
  next
    case False
    with Cons.prems obtain j where "find_sub sub cs = Some j" "i = Suc j" by auto
    with Cons.IH[of j] show ?thesis by simp
  qed
qed

lemma find_sub_occurs:
  "find_sub sub s = Some i \<Longrightarrow> s = take i s @ sub @ drop (i + length sub) s"
proof (induction s arbitrary: i)
  case Nil
  then show ?case by (simp split: if_splits)
next
  case (Cons c cs)
  show ?case
  proof (cases "prefix sub (c # cs)")
    case True
    with Cons.prems have "i = 0" by simp
    with True show ?thesis by (auto simp: prefix_def)
  next
    case False
    with Cons.prems obtain j where j: "find_sub sub cs = Some j" "i = Suc j" by auto
    from Cons.IH[OF j(1)] j(2) show ?thesis by simp
  qed
qed

lemma split_fuel_more:
  "sep \<noteq> [] \<Longrightarrow> length s \<le> n \<Longrightarrow> length s \<le> m \<Longrightarrow>
   split_fuel n sep s = split_fuel m sep s"
proof (induction n arbitrary: m s)
  case 0
  then show ?case by (cases m) simp_all
next
  case (Suc n)
  show ?case
  proof (cases m)
    case 0
    with Suc.prems show ?thesis by simp
  next
    case (Suc m')
    show ?thesis
    proof (cases "find_sub sep s")
      case None
      with Suc show ?thesis by simp
    next
      case (Some i)
      from find_sub_bound[OF Some] Suc.prems(1) have "i + length sep \<le> length s" "0 < length sep"
        by simp_all
      with Suc.prems(2,3) Suc have "length (drop (i + length sep) s) \<le> n"
        "length (drop (i + length sep) s) \<le> m'" by (simp_all, linarith+)
      from Suc.IH[OF Suc.prems(1) this] Some Suc show ?thesis by simp
    qed
  qed
qed

lemma split_fuel_enough:
  "sep \<noteq> [] \<Longrightarrow> length s \<le> n \<Longrightarrow> split_fuel n sep s = py_split sep s"
  unfolding py_split_def by (rule split_fuel_more) simp_all

lemma py_split_unfold:
  assumes "sep \<noteq> []"
  shows "py_split sep s =
    (case find_sub sep s of None \<Rightarrow> [s]
     | Some i \<Rightarrow> take i s # py_split sep (drop (i + length sep) s))"
proof (cases "find_sub sep s")
  case None
  then show ?thesis by (cases s) (simp_all add: py_split_def)
next
  case (Some i)
  from find_sub_bound[OF Some] assms obtain n where n: "length s = Suc n"
    by (cases "length s") auto
  from find_sub_bound[OF Some] assms n have "length (drop (i + length sep) s) \<le> n"
    by (cases sep) auto
  from split_fuel_enough[OF assms this] Some n show ?thesis
    by (simp add: py_split_def)
qed

lemma py_split_hd:
  "sep \<noteq> [] \<Longrightarrow>
   hd (py_split sep s) = (case find_sub sep s of None \<Rightarrow> s | Some i \<Rightarrow> take i s)"
  by (subst py_split_unfold) (simp_all split: option.splits)

lemma py_split_second:
  assumes "sep \<noteq> []" "find_sub sep s = Some i"
  shows "py_split sep s ! 1 =
    (case find_sub sep (drop (i + length sep) s) of
       None \<Rightarrow> drop (i + length sep) s
     | Some j \<Rightarrow> take j (drop (i + length sep) s))"
proof -
  have "py_split sep s = take i s # py_split sep (drop (i + length sep) s)"
    by (subst py_split_unfold[OF assms(1)]) (simp add: assms(2))
  moreover have "py_split sep (drop (i + length sep) s) \<noteq> []"
    by (subst py_split_unfold[OF assms(1)]) (simp split: option.splits)
  ultimately have "py_split sep s ! 1 = hd (py_split sep (drop (i + length sep) s))"
    by (simp add: hd_conv_nth)
  then show ?thesis by (simp add: py_split_hd[OF assms(1)])
qed

lemma find_sub_char:
  "find_sub [c] s =
     (if c \<in> set s then Some (length (takeWhile (\<lambda>x. x \<noteq> c) s)) else None)"
  by (induction s) auto

lemma py_split_line:
  "hd (py_split [c] s) = takeWhile (\<lambda>x. x \<noteq> c) s"
proof (cases "c \<in> set s")
  case True
  then show ?thesis by (simp add: py_split_hd find_sub_char takeWhile_eq_take[symmetric])
next
  case False
  then have T: "takeWhile (\<lambda>x. x \<noteq> c) s = s"
    by (simp add: takeWhile_eq_all_conv) blast
  from False have "hd (py_split [c] s) = s"
    by (simp add: py_split_hd find_sub_char)
  also from T have "s = takeWhile (\<lambda>x. x \<noteq> c) s" by (rule sym)
  finally show ?thesis .
qed

section \<open>Sorting\<close>

lemma key_le_simps [simp]:
  "key_le (KStr a) (KStr b) = (a \<le> b)"
  "key_le (KDate x) (KDate y) = (x \<le> y)"
  "\<not> key_le KNone k"
  "\<not> key_le k KNone"
  "\<not> key_le (KStr a) (KDate y)"
  "\<not> key_le (KDate x) (KStr b)"
  by (cases k; auto simp: key_le_def)+

lemma key_le_trans: "key_le a b \<Longrightarrow> key_le b c \<Longrightarrow> key_le a c"
  by (cases a; cases b; cases c) simp_all

lemma key_lt_le: "key_lt a b = Inr True \<Longrightarrow> key_le a b"
  by (cases a; cases b) simp_all

lemma py_insert_Cons:
  "py_insert key x (y # ys) = Inr zs \<Longrightarrow>
   (key_lt (key y) (key x) = Inr False \<and> zs = x # y # ys) \<or>
   (key_lt (key y) (key x) = Inr True \<and> (\<exists>ws. py_insert key x ys = Inr ws \<and> zs = y # ws))"
  by (cases "key_lt (key y) (key x)"; cases "py_insert key x ys") (auto split: bool.splits)

lemma py_insert_set:
  "py_insert key x ys = Inr zs \<Longrightarrow> set zs = insert x (set ys) \<and> length zs = Suc (length ys)"
proof (induction ys arbitrary: zs)
  case Nil
  then show ?case by auto
next
  case (Cons y ys)
  from py_insert_Cons[OF Cons.prems] show ?case
  proof
    assume "key_lt (key y) (key x) = Inr False \<and> zs = x # y # ys"
    then show ?thesis by auto
  next
    assume "key_lt (key y) (key x) = Inr True \<and> (\<exists>ws. py_insert key x ys = Inr ws \<and> zs = y # ws)"
    then obtain ws where w: "py_insert key x ys = Inr ws" "zs = y # ws" by blast
    from Cons.IH[OF w(1)] w(2) show ?thesis by auto
  qed
qed

lemma py_sorted_Cons:
  "py_sorted key (x # xs) = Inr ys \<Longrightarrow>
   \<exists>zs. py_sorted key xs = Inr zs \<and> py_insert key x zs = Inr ys"
  by (cases "py_sorted key xs") simp_all

lemma py_sorted_set:
  "py_sorted key xs = Inr ys \<Longrightarrow> set ys = set xs \<and> length ys = length xs"
proof (induction xs arbitrary: ys)
  case Nil
  then show ?case by simp
next
  case (Cons x xs)
  from py_sorted_Cons[OF Cons.prems] obtain zs where
    z: "py_sorted key xs = Inr zs" "py_insert key x zs = Inr ys" by blast
  from Cons.IH[OF z(1)] py_insert_set[OF z(2)] show ?case by simp
qed

lemma py_insert_sorted:
  "py_insert key x ys = Inr zs \<Longrightarrow> sorted_wrt (\<lambda>a b. key_le (key a) (key b)) ys \<Longrightarrow>
   sorted_wrt (\<lambda>a b. key_le (key a) (key b)) zs"
proof (induction ys arbitrary: zs)
  case Nil
  then show ?case by auto
next
  case (Cons y ys)
  from py_insert_Cons[OF Cons.prems(1)] show ?case
  proof
    assume a: "key_lt (key y) (key x) = Inr False \<and> zs = x # y # ys"
    then have xy: "key_le (key x) (key y)" by (simp add: key_le_def)
    have "key_le (key x) (key z)" if "z \<in> set ys" for z
    proof -
      from Cons.prems(2) that have "key_le (key y) (key z)" by simp
      with xy show ?thesis by (rule key_le_trans)
    qed
    with xy a Cons.prems(2) show ?thesis by simp
  next
    assume "key_lt (key y) (key x) = Inr True \<and> (\<exists>ws. py_insert key x ys = Inr ws \<and> zs = y # ws)"
    then obtain ws where w: "key_lt (key y) (key x) = Inr True" "py_insert key x ys = Inr ws"
      "zs = y # ws" by blast
    from Cons.IH[OF w(2)] Cons.prems(2) have "sorted_wrt (\<lambda>a b. key_le (key a) (key b)) ws"
      by simp
    moreover from py_insert_set[OF w(2)] have "set ws = insert x (set ys)" by simp
    moreover from w(1) have "key_le (key y) (key x)" by (rule key_lt_le)
    ultimately show ?thesis using Cons.prems(2) w(3) by simp
  qed
qed

lemma py_sorted_sorted:
  "py_sorted key xs = Inr ys \<Longrightarrow> sorted_wrt (\<lambda>a b. key_le (key a) (key b)) ys"
proof (induction xs arbitrary: ys)
  case Nil
  then show ?case by simp
next
  case (Cons x xs)
  from py_sorted_Cons[OF Cons.prems] obtain zs where
    z: "py_sorted key xs = Inr zs" "py_insert key x zs = Inr ys" by blast
  from py_insert_sorted[OF z(2) Cons.IH[OF z(1)]] show ?case .
qed

lemma key_lt_ok_iff:
  "(\<exists>b. key_lt a c = Inr b) =
     (is_text_key a \<and> is_text_key c \<or> is_date_key a \<and> is_date_key c)"
  by (cases a; cases c) (simp_all add: is_text_key_def is_date_key_def)

lemma py_insert_ok:
  assumes "\<forall>y\<in>set (x # ys). P (key y)" "P = is_text_key \<or> P = is_date_key"
  shows "\<exists>zs. py_insert key x ys = Inr zs"
  using assms(1)
proof (induction ys)
  case Nil
  then show ?case by simp
next
  case (Cons y ys)
  from Cons.prems assms(2) have "\<exists>b. key_lt (key y) (key x) = Inr b"
    unfolding key_lt_ok_iff by auto
  then obtain b where b: "key_lt (key y) (key x) = Inr b" by blast
  from Cons obtain zs where "py_insert key x ys = Inr zs" by auto
  with b show ?case by (cases b) simp_all
qed

lemma py_sorted_ok:
  assumes "\<forall>y\<in>set xs. P (key y)" "P = is_text_key \<or> P = is_date_key"
  shows "\<exists>ys. py_sorted key xs = Inr ys"
  using assms(1)
proof (induction xs)
  case Nil
  then show ?case by simp
next
  case (Cons x xs)
  then obtain zs where z: "py_sorted key xs = Inr zs" by auto
  from py_sorted_set[OF z] Cons.prems have "\<forall>y\<in>set (x # zs). P (key y)" by simp
  from py_insert_ok[OF this assms(2)] z show ?case by simp
qed

lemma py_sorted_uniform:
  "py_sorted key xs = Inr ys \<Longrightarrow> uniform_keys (map key xs)"
proof (induction xs arbitrary: ys)
  case Nil
  then show ?case by (simp add: uniform_keys_def)
next
  case (Cons x xs)
  from py_sorted_Cons[OF Cons.prems] obtain zs where
    z: "py_sorted key xs = Inr zs" "py_insert key x zs = Inr ys" by blast
  note IH = Cons.IH[OF z(1)]
  show ?case
  proof (cases zs)
    case Nil
    with py_sorted_set[OF z(1)] show ?thesis by (simp add: uniform_keys_def)
  next
    case (Cons y ys')
    with z(2) have "\<exists>b. key_lt (key y) (key x) = Inr b"
      by (cases "key_lt (key y) (key x)") simp_all
    then have k: "is_text_key (key y) \<and> is_text_key (key x) \<or>
                  is_date_key (key y) \<and> is_date_key (key x)"
      by (simp add: key_lt_ok_iff)
    from Cons py_sorted_set[OF z(1)] have y: "y \<in> set xs" by auto
    have nt: "\<not> (is_text_key k \<and> is_date_key k)" for k
      by (cases k) (simp_all add: is_text_key_def is_date_key_def)
    from IH consider (one) "length xs \<le> 1" | (strs) "list_all is_text_key (map key xs)"
      | (dats) "list_all is_date_key (map key xs)"
      by (auto simp: uniform_keys_def)
    then show ?thesis
    proof cases
      case one
      with y have "xs = [y]" by (cases xs) auto
      with k show ?thesis by (auto simp: uniform_keys_def)
    next
      case strs
      with y have "is_text_key (key y)" by (simp add: list_all_iff)
      with k nt have "is_text_key (key x)" by blast
      with strs show ?thesis by (simp add: uniform_keys_def)
    next
      case dats
      with y have "is_date_key (key y)" by (simp add: list_all_iff)
      with k nt have "is_date_key (key x)" by blast
      with dats show ?thesis by (simp add: uniform_keys_def)
    qed
  qed
qed

lemma py_sorted_raises_iff:
  "(\<exists>e. py_sorted key xs = Inl e) = (\<not> uniform_keys (map key xs))"
proof
  assume "\<exists>e. py_sorted key xs = Inl e"
  then show "\<not> uniform_keys (map key xs)"
  proof (rule contrapos_pn)
    assume u: "uniform_keys (map key xs)"
    then consider (one) "length xs \<le> 1" | (strs) "list_all is_text_key (map key xs)"
      | (dats) "list_all is_date_key (map key xs)"
      by (auto simp: uniform_keys_def)
    then have "\<exists>ys. py_sorted key xs = Inr ys"
    proof cases
      case one
      then show ?thesis by (cases xs) auto
    next
      case strs
      then have "\<forall>y\<in>set xs. is_text_key (key y)" by (simp add: list_all_iff)
      from py_sorted_ok[OF this] show ?thesis by simp
    next
      case dats
      then have "\<forall>y\<in>set xs. is_date_key (key y)" by (simp add: list_all_iff)
      from py_sorted_ok[OF this] show ?thesis by simp
    qed
    then show "\<not> (\<exists>e. py_sorted key xs = Inl e)" by auto
  qed
next
  assume n: "\<not> uniform_keys (map key xs)"
  show "\<exists>e. py_sorted key xs = Inl e"
  proof (cases "py_sorted key xs")
    case (Inl e)
    then show ?thesis by blast
  next
    case (Inr ys)
    from py_sorted_uniform[OF this] n show ?thesis by simp
  qed
qed

lemma sorted_wrt_concat:
  "sorted_wrt P (concat xss) =
     ((\<forall>xs\<in>set xss. sorted_wrt P xs) \<and>
      sorted_wrt (\<lambda>xs ys. \<forall>x\<in>set xs. \<forall>y\<in>set ys. P x y) xss)"
  by (induction xss) (auto simp: sorted_wrt_append)

section \<open>Reconstruction: what each loop preserves\<close>

lemma detected_simps [simp]:
  "detected [] = []"
  "detected (a @ b) = detected a @ detected b"
  "detected (Print (ComponentDetected c) # tr) = c # detected tr"
  "detected (Call x # tr) = detected tr"
  by (simp_all add: detected_def)

lemma scan_text_cases:
  "scan_text t txt (ctx, tr) =
    (let detect = ((contains ''componente:'' (py_lower txt) \<or> contains ''Componente:'' txt) \<and>
                   component_of txt \<noteq> []);
         c1 = (if detect
               then ctx\<lparr>componentsTested := List.insert (component_of txt) (componentsTested ctx)\<rparr>
               else ctx);
         r1 = (if detect then tr @ [Print (ComponentDetected (component_of txt))] else tr)
     in if contains hipotesis (py_lower txt)
        then (c1\<lparr>hypotheses := hypotheses c1 @
                   [\<lparr>hyp_text = txt, hyp_timestamp = t,
                     hyp_engineer = hypothesis_engineer txt\<rparr>]\<rparr>, r1)
        else (c1, r1))"
  unfolding scan_text_def Let_def by simp

lemma scan_text_effect:
  assumes "scan_text t txt (ctx, tr) = (ctx', tr')"
  shows "diagnosticTimeline ctx' = diagnosticTimeline ctx"
    and "screenshots ctx' = screenshots ctx"
    and "hypotheses ctx' = hypotheses ctx @
           (if contains hipotesis (py_lower txt)
            then [\<lparr>hyp_text = txt, hyp_timestamp = t, hyp_engineer = hypothesis_engineer txt\<rparr>]
            else [])"
    and "components_inv D0 ctx tr \<Longrightarrow> components_inv D0 ctx' tr'"
proof -
  define detect where "detect = ((contains ''componente:'' (py_lower txt) \<or> contains ''Componente:'' txt) \<and>
                   component_of txt \<noteq> [])"
  define hy where "hy = contains hipotesis (py_lower txt)"
  from assms have E: "ctx' = (let c1 = (if detect
               then ctx\<lparr>componentsTested := List.insert (component_of txt) (componentsTested ctx)\<rparr>
               else ctx) in if hy then c1\<lparr>hypotheses := hypotheses c1 @
                   [\<lparr>hyp_text = txt, hyp_timestamp = t,
                     hyp_engineer = hypothesis_engineer txt\<rparr>]\<rparr> else c1)"
    "tr' = (if detect then tr @ [Print (ComponentDetected (component_of txt))] else tr)"
    unfolding scan_text_cases detect_def[symmetric] hy_def[symmetric]
    by (simp_all add: Let_def split: if_splits)
  show "diagnosticTimeline ctx' = diagnosticTimeline ctx"
    unfolding E by (cases detect; cases hy) simp_all
  show "screenshots ctx' = screenshots ctx"
    unfolding E by (cases detect; cases hy) simp_all
  show "hypotheses ctx' = hypotheses ctx @
           (if contains hipotesis (py_lower txt)
            then [\<lparr>hyp_text = txt, hyp_timestamp = t, hyp_engineer = hypothesis_engineer txt\<rparr>]
            else [])"
    unfolding E hy_def[symmetric] by (cases detect; cases hy) simp_all
  show "components_inv D0 ctx tr \<Longrightarrow> components_inv D0 ctx' tr'"
    unfolding E components_inv_def by (cases detect; cases hy) auto
qed

lemma process_block_cases:
  "process_block step_id iid t blk (tc, im, ctx, tr) =
    (let tc1 = (case b_text blk of None \<Rightarrow> tc | Some x \<Rightarrow> x);
         cr = (case b_text blk of None \<Rightarrow> (ctx, tr) | Some x \<Rightarrow> scan_text t x (ctx, tr))
     in case b_image blk of
          None \<Rightarrow> (tc1, im, fst cr, snd cr)
        | Some img \<Rightarrow>
            (tc1,
             im @ [\<lparr>ref_stepId = step_id,
                     ref_format = (case img_format img of None \<Rightarrow> ''unknown'' | Some f \<Rightarrow> f)\<rparr>],
             (fst cr)\<lparr>screenshots := screenshots (fst cr) @
                    [\<lparr>stepId = step_id, shot_invocationId = iid, shot_timestamp = t,
                      associatedText = associated_text tc1\<rparr>]\<rparr>,
             snd cr))"
  unfolding process_block_def Let_def
  by (cases "b_text blk"; cases "b_image blk") (simp_all add: case_prod_beta)

lemma process_block_effect:
  assumes "process_block step_id iid t blk (tc, im, ctx, tr) = (tc', im', ctx', tr')"
  shows "diagnosticTimeline ctx' = diagnosticTimeline ctx"
    and "components_inv D0 ctx tr \<Longrightarrow> components_inv D0 ctx' tr'"
    and "G t \<Longrightarrow> times_inv G ctx \<Longrightarrow> times_inv G ctx'"
proof -
  obtain c1 r1 where s:
    "(case b_text blk of None \<Rightarrow> (ctx, tr) | Some x \<Rightarrow> scan_text t x (ctx, tr)) = (c1, r1)"
    by fastforce
  have 1: "diagnosticTimeline c1 = diagnosticTimeline ctx \<and> screenshots c1 = screenshots ctx \<and>
     (components_inv D0 ctx tr \<longrightarrow> components_inv D0 c1 r1) \<and>
     (G t \<longrightarrow> times_inv G ctx \<longrightarrow> times_inv G c1)"
  proof (cases "b_text blk")
    case None
    with s show ?thesis by simp
  next
    case (Some x)
    with s have x: "scan_text t x (ctx, tr) = (c1, r1)" by simp
    have "G t \<longrightarrow> times_inv G ctx \<longrightarrow> times_inv G c1"
      unfolding times_inv_def scan_text_effect(2)[OF x] scan_text_effect(3)[OF x] by auto
    with scan_text_effect(1,2)[OF x] scan_text_effect(4)[OF x, of D0] show ?thesis by blast
  qed
  from assms s have 2: "ctx' = (case b_image blk of None \<Rightarrow> c1
      | Some img \<Rightarrow> c1\<lparr>screenshots := screenshots c1 @
                    [\<lparr>stepId = step_id, shot_invocationId = iid,
                      shot_timestamp = t,
                      associatedText = associated_text tc'\<rparr>]\<rparr>)" "tr' = r1"
    unfolding process_block_cases Let_def
    by (cases "b_image blk"; simp)+
  from 1 2 show "diagnosticTimeline ctx' = diagnosticTimeline ctx"
    by (cases "b_image blk") simp_all
  from 1 2 show "components_inv D0 ctx tr \<Longrightarrow> components_inv D0 ctx' tr'"
    by (cases "b_image blk") (simp_all add: components_inv_def)
  from 1 2 show "G t \<Longrightarrow> times_inv G ctx \<Longrightarrow> times_inv G ctx'"
    by (cases "b_image blk") (simp_all add: times_inv_def)
qed

lemma process_blocks_effect:
  assumes "process_blocks step_id iid t blks (tc, im, ctx, tr) = (tc', im', ctx', tr')"
  shows "diagnosticTimeline ctx' = diagnosticTimeline ctx \<and>
         (components_inv D0 ctx tr \<longrightarrow> components_inv D0 ctx' tr') \<and>
         (G t \<longrightarrow> times_inv G ctx \<longrightarrow> times_inv G ctx')"
  using assms
proof (induction blks arbitrary: tc im ctx tr)
  case Nil
  then show ?case by simp
next
  case (Cons blk blks)
  obtain tc1 im1 c1 r1 where
    b: "process_block step_id iid t blk (tc, im, ctx, tr) = (tc1, im1, c1, r1)"
    using prod_cases4 by blast
  with Cons.prems have
    "process_blocks step_id iid t blks (tc1, im1, c1, r1) = (tc', im', ctx', tr')"
    by simp
  from Cons.IH[OF this] process_block_effect(1)[OF b] process_block_effect(2)[OF b, of D0]
    process_block_effect(3)[OF b, of G]
  show ?case by simp
qed

lemma detected_Print [simp]:
  "detected (Print m # tr) =
     (case m of ComponentDetected c \<Rightarrow> c # detected tr | _ \<Rightarrow> detected tr)"
  by (cases m) (simp_all add: detected_def)

lemma components_inv_append:
  "components_inv D0 ctx tr \<Longrightarrow> detected evs = [] \<Longrightarrow> components_inv D0 ctx (tr @ evs)"
  by (simp add: components_inv_def)

lemma process_step_cases:
  "process_step w sid iid st (ds, ctx, tr) =
    (let tr1 = tr @ [Call (GetInvocationStep sid iid (invocationStepId st))] in
     case get_invocation_step w (calls_of tr) sid iid (invocationStepId st) of
       Inl e \<Rightarrow> (ds, ctx, tr1 @ [Print (StepError (invocationStepId st) e)])
     | Inr r \<Rightarrow>
        (case payload (details_of r) of
           None \<Rightarrow> (ds, ctx, tr1 @ [Print (UnexpectedStepStructure (invocationStepId st))])
         | Some pl \<Rightarrow>
            (case contentBlocks pl of
               None \<Rightarrow> (ds, ctx, tr1 @ [Print (UnexpectedStepStructure (invocationStepId st))])
             | Some blks \<Rightarrow>
                (let res = process_blocks (invocationStepId st) iid (details_time (details_of r))
                             blks ([], [], ctx, tr1)
                 in (ds @ [\<lparr>timestamp = details_time (details_of r),
                             textContent = fst res,
                             hasImages = (length (fst (snd res)) > 0),
                             imageRefs = fst (snd res)\<rparr>],
                     fst (snd (snd res)), snd (snd (snd res)))))))"
  unfolding process_step_def Let_def
  by (simp add: case_prod_beta split: sum.splits option.splits)

lemma process_step_effect:
  assumes "process_step w sid iid st (ds, ctx, tr) = (ds', ctx', tr')"
  shows "diagnosticTimeline ctx' = diagnosticTimeline ctx"
    and "components_inv D0 ctx tr \<Longrightarrow> components_inv D0 ctx' tr'"
    and "times_inv (from_gateway w sid) ctx \<Longrightarrow> times_inv (from_gateway w sid) ctx'"
    and "ds' = ds \<or>
         (\<exists>r d. get_invocation_step w (calls_of tr) sid iid (invocationStepId st) = Inr r \<and>
                ds' = ds @ [d] \<and> timestamp d = details_time (details_of r))"
proof -
  let ?tr1 = "tr @ [Call (GetInvocationStep sid iid (invocationStepId st))]"
  have "diagnosticTimeline ctx' = diagnosticTimeline ctx \<and>
    (components_inv D0 ctx tr \<longrightarrow> components_inv D0 ctx' tr') \<and>
    (times_inv (from_gateway w sid) ctx \<longrightarrow> times_inv (from_gateway w sid) ctx') \<and>
    (ds' = ds \<or>
         (\<exists>r d. get_invocation_step w (calls_of tr) sid iid (invocationStepId st) = Inr r \<and>
                ds' = ds @ [d] \<and> timestamp d = details_time (details_of r)))"
  proof (cases "get_invocation_step w (calls_of tr) sid iid (invocationStepId st)")
    case (Inl e)
    with assms have "ds' = ds" "ctx' = ctx"
      "tr' = ?tr1 @ [Print (StepError (invocationStepId st) e)]"
      unfolding process_step_cases by simp_all
    then show ?thesis by (simp add: components_inv_def)
  next
    case (Inr r)
    show ?thesis
    proof (cases "payload (details_of r)")
      case None
      with Inr assms have "ds' = ds" "ctx' = ctx"
        "tr' = ?tr1 @ [Print (UnexpectedStepStructure (invocationStepId st))]"
        unfolding process_step_cases by simp_all
      then show ?thesis by (simp add: components_inv_def)
    next
      case (Some pl)
      show ?thesis
      proof (cases "contentBlocks pl")
        case None
        with Some Inr assms have "ds' = ds" "ctx' = ctx"
          "tr' = ?tr1 @ [Print (UnexpectedStepStructure (invocationStepId st))]"
          unfolding process_step_cases by simp_all
        then show ?thesis by (simp add: components_inv_def)
      next
        case blks: (Some blks)
        obtain tc im c1 r1 where
          res: "process_blocks (invocationStepId st) iid (details_time (details_of r)) blks
                  ([], [], ctx, ?tr1) = (tc, im, c1, r1)"
          using prod_cases4 by blast
        from assms Inr Some blks res have E: "ctx' = c1" "tr' = r1"
          "ds' = ds @ [\<lparr>timestamp = details_time (details_of r), textContent = tc,
                        hasImages = (length im > 0), imageRefs = im\<rparr>]"
          unfolding process_step_cases by (simp_all add: Let_def)
        have G: "from_gateway w sid (details_time (details_of r))"
          unfolding from_gateway_def using Inr by blast
        have C: "components_inv D0 ctx tr \<Longrightarrow> components_inv D0 ctx ?tr1"
          by (rule components_inv_append) simp_all
        note B = process_blocks_effect[OF res, of D0 "from_gateway w sid"]
        have 1: "diagnosticTimeline ctx' = diagnosticTimeline ctx"
          using B E(1) by simp
        have 2: "components_inv D0 ctx tr \<longrightarrow> components_inv D0 ctx' tr'"
          using B C E(1,2) by simp
        have 3: "times_inv (from_gateway w sid) ctx \<longrightarrow> times_inv (from_gateway w sid) ctx'"
          using B G E(1) by simp
        have 4: "\<exists>r d. get_invocation_step w (calls_of tr) sid iid (invocationStepId st) = Inr r \<and>
                ds' = ds @ [d] \<and> timestamp d = details_time (details_of r)"
          apply (rule exI[of _ r])
          apply (rule exI[of _ "\<lparr>timestamp = details_time (details_of r), textContent = tc,
                        hasImages = (length im > 0), imageRefs = im\<rparr>"])
          using Inr E(3) by simp
        from 1 2 3 4 show ?thesis by blast
      qed
    qed
  qed
  then show "diagnosticTimeline ctx' = diagnosticTimeline ctx"
    and "components_inv D0 ctx tr \<Longrightarrow> components_inv D0 ctx' tr'"
    and "times_inv (from_gateway w sid) ctx \<Longrightarrow> times_inv (from_gateway w sid) ctx'"
    and "ds' = ds \<or>
         (\<exists>r d. get_invocation_step w (calls_of tr) sid iid (invocationStepId st) = Inr r \<and>
                ds' = ds @ [d] \<and> timestamp d = details_time (details_of r))"
    by blast+
qed

lemma process_steps_effect:
  assumes "process_steps w sid iid sts (ds, ctx, tr) = (ds', ctx', tr')"
  shows "diagnosticTimeline ctx' = diagnosticTimeline ctx \<and>
    (components_inv D0 ctx tr \<longrightarrow> components_inv D0 ctx' tr') \<and>
    (times_inv (from_gateway w sid) ctx \<longrightarrow> times_inv (from_gateway w sid) ctx')"
  using assms
proof (induction sts arbitrary: ds ctx tr)
  case Nil
  then show ?case by simp
next
  case (Cons st sts)
  obtain d1 c1 r1 where s: "process_step w sid iid st (ds, ctx, tr) = (d1, c1, r1)"
    using prod_cases3 by blast
  with Cons.prems have "process_steps w sid iid sts (d1, c1, r1) = (ds', ctx', tr')" by simp
  from Cons.IH[OF this] process_step_effect(1)[OF s] process_step_effect(2)[OF s, of D0]
    process_step_effect(3)[OF s]
  show ?case by simp
qed

lemma get_time_key_summary:
  "get_time_key (invocationStepTime st) = time_key (summary_time st)"
  by (simp add: get_time_key_def summary_time_def time_key_def split: option.splits)

lemma time_le_trans: "time_le a b \<Longrightarrow> time_le b c \<Longrightarrow> time_le a c"
  unfolding time_le_def by (rule key_le_trans)

lemma process_steps_sorted:
  assumes "process_steps w sid iid sts (ds, ctx, tr) = (ds', ctx', tr')"
    and "\<forall>st\<in>set sts. \<forall>h r. get_invocation_step w h sid iid (invocationStepId st) = Inr r \<longrightarrow>
           details_time (details_of r) = summary_time st"
    and "sorted_wrt (\<lambda>a b. time_le (summary_time a) (summary_time b)) sts"
    and "sorted_wrt time_le (map timestamp ds)"
    and "\<forall>d\<in>set ds. \<forall>st\<in>set sts. time_le (timestamp d) (summary_time st)"
  shows "sorted_wrt time_le (map timestamp ds')"
  using assms
proof (induction sts arbitrary: ds ctx tr)
  case Nil
  then show ?case by simp
next
  case (Cons st sts)
  obtain d1 c1 r1 where s: "process_step w sid iid st (ds, ctx, tr) = (d1, c1, r1)"
    using prod_cases3 by blast
  with Cons.prems(1) have n: "process_steps w sid iid sts (d1, c1, r1) = (ds', ctx', tr')"
    by simp
  from Cons.prems(2) have c: "\<forall>st\<in>set sts. \<forall>h r.
      get_invocation_step w h sid iid (invocationStepId st) = Inr r \<longrightarrow>
      details_time (details_of r) = summary_time st" by simp
  from Cons.prems(3) have so: "sorted_wrt (\<lambda>a b. time_le (summary_time a) (summary_time b)) sts"
    and hd: "\<forall>x\<in>set sts. time_le (summary_time st) (summary_time x)" by simp_all
  from process_step_effect(4)[OF s] consider (skip) "d1 = ds"
    | (add) r d where "get_invocation_step w (calls_of tr) sid iid (invocationStepId st) = Inr r"
        "d1 = ds @ [d]" "timestamp d = details_time (details_of r)"
    by blast
  then show ?case
  proof cases
    case skip
    with Cons.prems(4,5) have "sorted_wrt time_le (map timestamp d1)"
      "\<forall>d\<in>set d1. \<forall>st\<in>set sts. time_le (timestamp d) (summary_time st)" by simp_all
    from Cons.IH[OF n c so this] show ?thesis .
  next
    case add
    from add(1) Cons.prems(2) have t: "details_time (details_of r) = summary_time st" by simp
    with add(3) have td: "timestamp d = summary_time st" by simp
    from Cons.prems(4,5) add(2) td have 1: "sorted_wrt time_le (map timestamp d1)"
      by (simp add: sorted_wrt_append)
    have 2: "\<forall>x\<in>set d1. \<forall>y\<in>set sts. time_le (timestamp x) (summary_time y)"
    proof (intro ballI)
      fix x y assume x: "x \<in> set d1" and y: "y \<in> set sts"
      from x add(2) have "x \<in> set ds \<or> x = d" by auto
      then show "time_le (timestamp x) (summary_time y)"
      proof
        assume "x \<in> set ds"
        with Cons.prems(5) y show ?thesis by simp
      next
        assume "x = d"
        with td hd y show ?thesis by simp
      qed
    qed
    from Cons.IH[OF n c so 1 2] show ?thesis .
  qed
qed

lemma process_invocation_cases:
  "process_invocation w isof sid invoc (ctx, tr) =
    (case invocationId invoc of
       None \<Rightarrow> (ctx, tr @ [Print (InvocationError None (KeyError ''invocationId''))])
     | Some iid \<Rightarrow>
        (let tr1 = tr @ [Call (ListInvocationSteps sid iid)] in
         case list_invocation_steps w (calls_of tr) sid iid of
           Inl e \<Rightarrow> (ctx, tr1 @ [Print (InvocationError (Some iid) e)])
         | Inr resp \<Rightarrow>
            (case py_sorted (\<lambda>x. get_time_key (invocationStepTime x))
                    (case resp of None \<Rightarrow> [] | Some l \<Rightarrow> l) of
               Inl e \<Rightarrow> (ctx, tr1 @ [Print (InvocationError (Some iid) e)])
             | Inr sts \<Rightarrow>
                (let res = process_steps w sid iid sts ([], ctx, tr1)
                 in ((fst (snd res))\<lparr>diagnosticTimeline := diagnosticTimeline (fst (snd res)) @
                        [\<lparr>entry_timestamp = creation_time_of isof invoc,
                          entry_description = description_of invoc iid,
                          engineer = engineer_of (description_of invoc iid),
                          steps = fst res\<rparr>]\<rparr>,
                     snd (snd res))))))"
  unfolding process_invocation_def Let_def
  by (simp add: case_prod_beta split: sum.splits option.splits)

lemma times_inv_timeline [simp]:
  "times_inv G (c\<lparr>diagnosticTimeline := x\<rparr>) = times_inv G c"
  by (simp add: times_inv_def)

lemma components_inv_timeline [simp]:
  "components_inv D0 (c\<lparr>diagnosticTimeline := x\<rparr>) tr = components_inv D0 c tr"
  by (simp add: components_inv_def)

lemma process_invocation_effect:
  assumes "process_invocation w isof sid invoc (ctx, tr) = (ctx', tr')"
  shows "(components_inv D0 ctx tr \<longrightarrow> components_inv D0 ctx' tr') \<and>
    (times_inv (from_gateway w sid) ctx \<longrightarrow> times_inv (from_gateway w sid) ctx') \<and>
    (diagnosticTimeline ctx' = diagnosticTimeline ctx \<or>
     (\<exists>e. diagnosticTimeline ctx' = diagnosticTimeline ctx @ [e] \<and>
          entry_timestamp e = creation_time_of isof invoc \<and>
          (consistent_step_times w sid \<longrightarrow> sorted_wrt time_le (map timestamp (steps e)))))"
proof (cases "invocationId invoc")
  case None
  with assms have "ctx' = ctx"
    "tr' = tr @ [Print (InvocationError None (KeyError ''invocationId''))]"
    unfolding process_invocation_cases by simp_all
  then show ?thesis by (simp add: components_inv_def)
next
  case (Some iid)
  let ?tr1 = "tr @ [Call (ListInvocationSteps sid iid)]"
  show ?thesis
  proof (cases "list_invocation_steps w (calls_of tr) sid iid")
    case (Inl e)
    with Some assms have "ctx' = ctx" "tr' = ?tr1 @ [Print (InvocationError (Some iid) e)]"
      unfolding process_invocation_cases by simp_all
    then show ?thesis by (simp add: components_inv_def)
  next
    case (Inr resp)
    let ?l = "case resp of None \<Rightarrow> [] | Some l \<Rightarrow> l"
    show ?thesis
    proof (cases "py_sorted (\<lambda>x. get_time_key (invocationStepTime x)) ?l")
      case (Inl e)
      with Inr Some assms have "ctx' = ctx" "tr' = ?tr1 @ [Print (InvocationError (Some iid) e)]"
        unfolding process_invocation_cases by simp_all
      then show ?thesis by (simp add: components_inv_def)
    next
      case sts: (Inr sts)
      obtain ds c1 r1 where res: "process_steps w sid iid sts ([], ctx, ?tr1) = (ds, c1, r1)"
        using prod_cases3 by blast
      let ?e = "\<lparr>entry_timestamp = creation_time_of isof invoc,
                  entry_description = description_of invoc iid,
                  engineer = engineer_of (description_of invoc iid), steps = ds\<rparr>"
      from assms Some Inr sts res have E:
        "ctx' = c1\<lparr>diagnosticTimeline := diagnosticTimeline c1 @ [?e]\<rparr>" "tr' = r1"
        unfolding process_invocation_cases by (simp_all add: Let_def)
      note P = process_steps_effect[OF res, of D0]
      have C: "components_inv D0 ctx tr \<Longrightarrow> components_inv D0 ctx ?tr1"
        by (rule components_inv_append) simp_all
      have 1: "components_inv D0 ctx tr \<longrightarrow> components_inv D0 ctx' tr'"
        using P C E by simp
      have 2: "times_inv (from_gateway w sid) ctx \<longrightarrow> times_inv (from_gateway w sid) ctx'"
        using P E by simp
      have 3: "sorted_wrt time_le (map timestamp ds)" if cons: "consistent_step_times w sid"
      proof -
        have a: "\<forall>st\<in>set sts. \<forall>h r.
            get_invocation_step w h sid iid (invocationStepId st) = Inr r \<longrightarrow>
            details_time (details_of r) = summary_time st"
        proof (cases resp)
          case None
          with sts py_sorted_set[OF sts] show ?thesis by simp
        next
          case (Some l)
          with py_sorted_set[OF sts] have "set sts = set l" by simp
          with cons Inr Some show ?thesis
            unfolding consistent_step_times_def by blast
        qed
        from py_sorted_sorted[OF sts]
        have b: "sorted_wrt (\<lambda>a b. time_le (summary_time a) (summary_time b)) sts"
          by (simp add: get_time_key_summary time_le_def)
        from process_steps_sorted[OF res a b] show ?thesis by simp
      qed
      have 4: "\<exists>e. diagnosticTimeline ctx' = diagnosticTimeline ctx @ [e] \<and>
          entry_timestamp e = creation_time_of isof invoc \<and>
          (consistent_step_times w sid \<longrightarrow> sorted_wrt time_le (map timestamp (steps e)))"
        apply (rule exI[of _ ?e])
        using P E(1) 3 by simp
      from 1 2 4 show ?thesis by blast
    qed
  qed
qed

lemma process_invocations_effect:
  assumes "process_invocations w isof sid invs (ctx, tr) = (ctx', tr')"
  shows "(components_inv D0 ctx tr \<longrightarrow> components_inv D0 ctx' tr') \<and>
    (times_inv (from_gateway w sid) ctx \<longrightarrow> times_inv (from_gateway w sid) ctx') \<and>
    (\<forall>e\<in>set (diagnosticTimeline ctx'). e \<in> set (diagnosticTimeline ctx) \<or>
       ((\<exists>invoc\<in>set invs. entry_timestamp e = creation_time_of isof invoc) \<and>
        (consistent_step_times w sid \<longrightarrow> sorted_wrt time_le (map timestamp (steps e)))))"
  using assms
proof (induction invs arbitrary: ctx tr)
  case Nil
  then show ?case by simp
next
  case (Cons invoc invs)
  obtain c1 r1 where s: "process_invocation w isof sid invoc (ctx, tr) = (c1, r1)"
    by fastforce
  with Cons.prems have n: "process_invocations w isof sid invs (c1, r1) = (ctx', tr')" by simp
  note I = Cons.IH[OF n]
  note P = process_invocation_effect[OF s, of D0]
  have 1: "components_inv D0 ctx tr \<longrightarrow> components_inv D0 ctx' tr'" using I P by blast
  have 2: "times_inv (from_gateway w sid) ctx \<longrightarrow> times_inv (from_gateway w sid) ctx'"
    using I P by blast
  have 3: "e \<in> set (diagnosticTimeline ctx) \<or>
       ((\<exists>invoc\<in>set (invoc # invs). entry_timestamp e = creation_time_of isof invoc) \<and>
        (consistent_step_times w sid \<longrightarrow> sorted_wrt time_le (map timestamp (steps e))))"
    if e: "e \<in> set (diagnosticTimeline ctx')" for e
  proof -
    from I e consider (old) "e \<in> set (diagnosticTimeline c1)"
      | (new) "(\<exists>invoc\<in>set invs. entry_timestamp e = creation_time_of isof invoc) \<and>
        (consistent_step_times w sid \<longrightarrow> sorted_wrt time_le (map timestamp (steps e)))"
      by blast
    then show ?thesis
    proof cases
      case old
      from P consider (same) "diagnosticTimeline c1 = diagnosticTimeline ctx"
        | (add) e' where "diagnosticTimeline c1 = diagnosticTimeline ctx @ [e']"
          "entry_timestamp e' = creation_time_of isof invoc"
          "consistent_step_times w sid \<longrightarrow> sorted_wrt time_le (map timestamp (steps e'))"
        by blast
      then show ?thesis
      proof cases
        case same
        with old show ?thesis by simp
      next
        case add
        with old have "e \<in> set (diagnosticTimeline ctx) \<or> e = e'" by auto
        with add(2,3) show ?thesis by auto
      qed
    next
      case new
      then show ?thesis by auto
    qed
  qed
  from 1 2 3 show ?case by blast
qed

lemma retrieve_failed_None [simp]: "fst (retrieve_failed sid e tr) = None"
  by (simp add: retrieve_failed_def)

lemma finish_context_cases:
  "finish_context sid (ctx, tr) =
     (case py_sorted entry_key (diagnosticTimeline ctx) of
        Inl e \<Rightarrow> retrieve_failed sid e tr
      | Inr timeline \<Rightarrow>
          (case py_sorted (\<lambda>x. time_key (hyp_timestamp x)) (hypotheses ctx) of
             Inl e \<Rightarrow> retrieve_failed sid e tr
           | Inr hyps \<Rightarrow>
               (case py_sorted (\<lambda>x. time_key (shot_timestamp x)) (screenshots ctx) of
                  Inl e \<Rightarrow> retrieve_failed sid e tr
                | Inr shots \<Rightarrow>
                    (Some (ctx\<lparr>diagnosticTimeline := timeline, hypotheses := hyps,
                               screenshots := shots\<rparr>),
                     tr @ [Print (ContextSummary (length timeline)
                                    (length (componentsTested ctx)) (length hyps)
                                    (length shots)),
                           Print ContextRetrieved]))))"
  by (simp add: finish_context_def)

lemma finish_context_Some:
  assumes "finish_context sid (ctx, tr) = (Some c, tr')"
  shows "py_sorted entry_key (diagnosticTimeline ctx) = Inr (diagnosticTimeline c) \<and>
         componentsTested c = componentsTested ctx \<and>
         detected tr' = detected tr"
proof (cases "py_sorted entry_key (diagnosticTimeline ctx)")
  case (Inl e)
  with assms have "fst (retrieve_failed sid e tr) = Some c"
    unfolding finish_context_cases by simp
  then show ?thesis by simp
next
  case tl: (Inr tl)
  show ?thesis
  proof (cases "py_sorted (\<lambda>x. time_key (hyp_timestamp x)) (hypotheses ctx)")
    case (Inl e)
    with tl assms have "fst (retrieve_failed sid e tr) = Some c"
      unfolding finish_context_cases by simp
    then show ?thesis by simp
  next
    case hs: (Inr hs)
    show ?thesis
    proof (cases "py_sorted (\<lambda>x. time_key (shot_timestamp x)) (screenshots ctx)")
      case (Inl e)
      with tl hs assms have "fst (retrieve_failed sid e tr) = Some c"
        unfolding finish_context_cases by simp
      then show ?thesis by simp
    next
      case (Inr ss)
      with tl hs assms have
        "c = ctx\<lparr>diagnosticTimeline := tl, hypotheses := hs, screenshots := ss\<rparr>"
        "tr' = tr @ [Print (ContextSummary (length tl) (length (componentsTested ctx))
                              (length hs) (length ss)), Print ContextRetrieved]"
        unfolding finish_context_cases by simp_all
      with tl show ?thesis by simp
    qed
  qed
qed


lemma retrieve_get_fails:
  assumes "get_session w (calls_of tr) sid = Inl e"
  shows "retrieve_diagnostic_context w isof now sid tr =
           retrieve_failed sid e (tr @ [Print RetrievingContext, Call (GetSession sid)])"
  using assms by (simp add: retrieve_diagnostic_context_def)

lemma metadata_events_simps [simp]:
  "calls_of (metadata_events s) = []" "detected (metadata_events s) = []"
  by (simp_all add: metadata_events_def split: option.splits)

lemma retrieve_with_session:
  assumes "get_session w (calls_of tr) sid = Inr sr"
  shows "\<exists>ctx0. diagnosticTimeline ctx0 = [] \<and> hypotheses ctx0 = [] \<and>
           componentsTested ctx0 = [] \<and> screenshots ctx0 = [] \<and>
    retrieve_diagnostic_context w isof now sid tr =
     (case list_invocations w (calls_of tr @ [GetSession sid]) sid of
        Inl e \<Rightarrow>
          retrieve_failed sid e
            (tr @ [Print RetrievingContext, Call (GetSession sid)] @
             metadata_events (session_of sr) @ [Call (ListInvocations sid)])
      | Inr resp \<Rightarrow>
          (case py_sorted (\<lambda>x. get_time_key (createdAt x))
                  (case resp of None \<Rightarrow> [] | Some l \<Rightarrow> l) of
             Inl e \<Rightarrow>
               retrieve_failed sid e
                 (tr @ [Print RetrievingContext, Call (GetSession sid)] @
                  metadata_events (session_of sr) @ [Call (ListInvocations sid)])
           | Inr sorted_invocations \<Rightarrow>
               finish_context sid
                 (process_invocations w isof sid sorted_invocations
                    (ctx0, tr @ [Print RetrievingContext, Call (GetSession sid)] @
                           metadata_events (session_of sr) @ [Call (ListInvocations sid)]))))"
proof -
  let ?s = "session_of sr"
  let ?ctx0 = "\<lambda>md. \<lparr>incidentInfo =
                 \<lparr>incidentId = dict_get md ''incidentId'' ''Unknown'',
                  systemAffected = dict_get md ''systemAffected'' ''Unknown'',
                  severity = dict_get md ''severity'' ''Unknown'',
                  startedAt = (case creationDateTime ?s of None \<Rightarrow> TStr now | Some t \<Rightarrow> t),
                  status = status_of ?s\<rparr>,
               diagnosticTimeline = [], hypotheses = [],
               componentsTested = [], screenshots = []\<rparr>"
  show ?thesis
  proof (cases "sessionMetadata ?s")
    case (Some m)
    show ?thesis
      apply (rule exI[of _ "?ctx0 m"])
      unfolding retrieve_diagnostic_context_def Let_def
      using assms Some
      by (simp add: metadata_events_def split: sum.splits)
  next
    case None
    show ?thesis
    proof (cases "metadata ?s")
      case (Some m)
      show ?thesis
        apply (rule exI[of _ "?ctx0 m"])
        unfolding retrieve_diagnostic_context_def Let_def
        using assms None Some
        by (simp add: metadata_events_def split: sum.splits)
    next
      case N2: None
      show ?thesis
        apply (rule exI[of _ "?ctx0 []"])
        unfolding retrieve_diagnostic_context_def Let_def
        using assms None N2
        by (simp add: metadata_events_def split: sum.splits)
    qed
  qed
qed

lemma retrieve_Some:
  assumes "retrieve_diagnostic_context w isof now sid tr = (Some ctx, tr')"
  shows "\<exists>sr resp sorted_invocations ctx0 tr3.
     get_session w (calls_of tr) sid = Inr sr \<and>
     list_invocations w (calls_of tr @ [GetSession sid]) sid = Inr resp \<and>
     py_sorted (\<lambda>x. get_time_key (createdAt x)) (case resp of None \<Rightarrow> [] | Some l \<Rightarrow> l) =
       Inr sorted_invocations \<and>
     diagnosticTimeline ctx0 = [] \<and> hypotheses ctx0 = [] \<and>
     componentsTested ctx0 = [] \<and> screenshots ctx0 = [] \<and> detected tr3 = detected tr \<and>
     finish_context sid (process_invocations w isof sid sorted_invocations (ctx0, tr3)) =
       (Some ctx, tr')"
proof (cases "get_session w (calls_of tr) sid")
  case (Inl e)
  from assms have "fst (retrieve_diagnostic_context w isof now sid tr) = Some ctx" by simp
  then show ?thesis unfolding retrieve_get_fails[OF Inl] by simp
next
  case (Inr sr)
  let ?tr3 = "tr @ [Print RetrievingContext, Call (GetSession sid)] @
                metadata_events (session_of sr) @ [Call (ListInvocations sid)]"
  from retrieve_with_session[OF Inr, of isof now] obtain ctx0 where
    c: "diagnosticTimeline ctx0 = []" "hypotheses ctx0 = []"
       "componentsTested ctx0 = []" "screenshots ctx0 = []"
    and r: "retrieve_diagnostic_context w isof now sid tr =
      (case list_invocations w (calls_of tr @ [GetSession sid]) sid of
           Inl e \<Rightarrow> retrieve_failed sid e ?tr3
         | Inr resp \<Rightarrow>
             (case py_sorted (\<lambda>x. get_time_key (createdAt x))
                     (case resp of None \<Rightarrow> [] | Some l \<Rightarrow> l) of
                Inl e \<Rightarrow> retrieve_failed sid e ?tr3
              | Inr sorted_invocations \<Rightarrow>
                  finish_context sid
                    (process_invocations w isof sid sorted_invocations (ctx0, ?tr3))))"
    by blast
  from assms have f: "fst (retrieve_diagnostic_context w isof now sid tr) = Some ctx" by simp
  show ?thesis
  proof (cases "list_invocations w (calls_of tr @ [GetSession sid]) sid")
    case (Inl e)
    with f r show ?thesis by simp
  next
    case resp: (Inr resp)
    show ?thesis
    proof (cases "py_sorted (\<lambda>x. get_time_key (createdAt x))
                     (case resp of None \<Rightarrow> [] | Some l \<Rightarrow> l)")
      case (Inl e)
      with resp f r show ?thesis by simp
    next
      case so: (Inr sorted_invocations)
      from r resp so assms have
        "finish_context sid (process_invocations w isof sid sorted_invocations (ctx0, ?tr3)) =
           (Some ctx, tr')" by simp
      moreover have "detected ?tr3 = detected tr" by simp
      ultimately show ?thesis using Inr resp so c by blast
    qed
  qed
qed

section \<open>Example runs\<close>

lemmas eval_defs = retrieve_diagnostic_context_def process_invocation_def process_step_def
  process_block_def scan_text_def finish_context_def session_of_def details_of_def details_time_def
  creation_time_of_def description_of_def engineer_of_def component_of_def hypothesis_engineer_def
  get_time_key_def time_key_def entry_key_def status_of_def dict_get_def associated_text_def
  contains_def py_split_def py_strip_def py_isspace_def py_lower_def lower_char_def upper_chars_def
  lower_chars_def hipotesis_def o_acute_def newline_def retrieve_failed_def
  table_world_def text_step_def summary_def invocation_def demo_session_def absent_world_def
  text_block_def not_found_def throttled_def empty_details_def Let_def


lemma crossed_run:
  "\<exists>c t. retrieve_diagnostic_context crossed_world no_dates ''10:05'' ''s-1'' [] = (Some c, t) \<and>
         flattened (diagnosticTimeline c) = [TStr ''12:00'', TStr ''11:30'']"
  by (simp add: eval_defs crossed_world_def flattened_def)

lemma ordered_run:
  "\<exists>c t. retrieve_diagnostic_context ordered_world no_dates ''10:05'' ''s-1'' [] = (Some c, t) \<and>
         flattened (diagnosticTimeline c) = [TStr ''10:01'', TStr ''10:02'', TStr ''11:30'']"
  by (simp add: eval_defs ordered_world_def flattened_def)

lemma partial_run:
  "\<exists>c t. retrieve_diagnostic_context partial_world no_dates ''10:05'' ''s-1'' [] = (Some c, t) \<and>
         flattened (diagnosticTimeline c) = [TStr ''10:03''] \<and>
         Print (StepError (Some ''a'') throttled) \<in> set t \<and>
         Print (UnexpectedStepStructure (Some ''b'')) \<in> set t"
  by (simp add: eval_defs partial_world_def flattened_def)


section \<open>Claims about deletion and the engineer of an invocation\<close>

text \<open>
  Claim C9. \<open>delete_diagnostic_session\<close> calls \<open>delete_session\<close> only when the
  confirmation answers yes: when it is denied, or raises, the run makes no gateway call,
  and a denial returns \<open>False\<close>. The audit record is printed on the console; the one call
  that the gateway can receive is \<open>delete_session\<close> with the session id, so that the
  record never reaches it.
\<close>

theorem delete_only_after_confirmation:
  "calls_of (snd (delete_diagnostic_session w now (Inr False) sid rsn appr tr)) = calls_of tr \<and>
   fst (delete_diagnostic_session w now (Inr False) sid rsn appr tr) = Inr False \<and>
   calls_of (snd (delete_diagnostic_session w now (Inl e) sid rsn appr tr)) = calls_of tr \<and>
   calls_of (snd (delete_diagnostic_session w now (Inr True) sid rsn appr tr)) =
     calls_of tr @ [DeleteSession sid] \<and>
   Print (AuditRecord \<lparr>action = ''session_deletion'', session_id = sid, audit_timestamp = now,
                        reason = rsn, approver = appr\<rparr>) \<in>
     set (snd (delete_diagnostic_session w now answer sid rsn appr tr))"
proof -
  have 1: "calls_of (snd (delete_failed sid x t)) = calls_of t" for x t
    by (cases x) (simp_all add: delete_failed_def)
  have 2: "set t \<subseteq> set (snd (delete_failed sid x t))" for x t
    by (cases x) (auto simp: delete_failed_def)
  have a: "calls_of (snd (delete_diagnostic_session w now (Inr False) sid rsn appr tr)) =
             calls_of tr"
    by (simp add: delete_diagnostic_session_def)
  have b: "fst (delete_diagnostic_session w now (Inr False) sid rsn appr tr) = Inr False"
    by (simp add: delete_diagnostic_session_def)
  have c: "calls_of (snd (delete_diagnostic_session w now (Inl e) sid rsn appr tr)) = calls_of tr"
    by (simp add: delete_diagnostic_session_def 1)
  have d: "calls_of (snd (delete_diagnostic_session w now (Inr True) sid rsn appr tr)) =
             calls_of tr @ [DeleteSession sid]"
    by (cases "delete_session w (calls_of tr) sid")
       (simp_all add: delete_diagnostic_session_def 1)
  have f: "Print (AuditRecord \<lparr>action = ''session_deletion'', session_id = sid,
                                audit_timestamp = now, reason = rsn, approver = appr\<rparr>) \<in>
             set (snd (delete_diagnostic_session w now answer sid rsn appr tr))"
  proof (cases answer)
    case (Inl x)
    with 2[of "tr @ [Print (AuditRecord \<lparr>action = ''session_deletion'', session_id = sid,
                                audit_timestamp = now, reason = rsn, approver = appr\<rparr>), Ask]" x]
    show ?thesis by (auto simp: delete_diagnostic_session_def)
  next
    case (Inr yes)
    show ?thesis
    proof (cases yes)
      case False
      with Inr show ?thesis by (simp add: delete_diagnostic_session_def)
    next
      case True
      show ?thesis
      proof (cases "delete_session w (calls_of tr) sid")
        case (Inl x)
        with 2[of "tr @ [Print (AuditRecord \<lparr>action = ''session_deletion'', session_id = sid,
                                audit_timestamp = now, reason = rsn, approver = appr\<rparr>), Ask,
                         Call (DeleteSession sid)]" x] Inr True
        show ?thesis by (auto simp: delete_diagnostic_session_def)
      next
        case (Inr u)
        with \<open>answer = Inr yes\<close> True show ?thesis by (simp add: delete_diagnostic_session_def)
      qed
    qed
  qed
  from a b c d f show ?thesis by blast
qed

lemma py_split_second_at:
  assumes "sep \<noteq> []" "find_sub sep s = Some i" "n = i + length sep"
  shows "py_split sep s ! 1 =
    (case find_sub sep (drop n s) of None \<Rightarrow> drop n s | Some j \<Rightarrow> take j (drop n s))"
  unfolding assms(3) by (rule py_split_second[OF assms(1,2)])

text \<open>
  Claim C8, as the code has it. The marker is \<open>por\<close> followed by a space; a space before
  it is not required and the marker \<open>by\<close> is not recognised. A description in which the
  marker does not occur gives \<open>Unknown\<close>; a description in which it occurs once gives the
  text after it.
\<close>

theorem engineer_after_marker:
  "(\<not> contains ''por '' d \<longrightarrow> engineer_of d = ''Unknown'') \<and>
   (find_sub ''por '' d = Some i \<longrightarrow> \<not> contains ''por '' (drop (i + 4) d) \<longrightarrow>
      engineer_of d = drop (i + 4) d)"
proof -
  have "engineer_of d = drop (i + 4) d"
    if f: "find_sub ''por '' d = Some i" and n: "\<not> contains ''por '' (drop (i + 4) d)"
  proof -
    from f have "d \<noteq> []" by (cases d) auto
    with f have "engineer_of d = py_split ''por '' d ! 1"
      by (simp add: engineer_of_def contains_def)
    also have "\<dots> = (case find_sub ''por '' (drop (i + 4) d) of
                          None \<Rightarrow> drop (i + 4) d | Some j \<Rightarrow> take j (drop (i + 4) d))"
      by (rule py_split_second_at[OF _ f]) simp_all
    also from n have "find_sub ''por '' (drop (i + 4) d) = None"
      by (simp add: contains_def)
    then have "(case find_sub ''por '' (drop (i + 4) d) of
                  None \<Rightarrow> drop (i + 4) d | Some j \<Rightarrow> take j (drop (i + 4) d)) =
               drop (i + 4) d"
      by (simp only: option.case)
    finally show ?thesis .
  qed
  then show ?thesis by (simp add: engineer_of_def)
qed

theorem engineer_after_marker_witness:
  "find_sub ''por '' (invocation_description demo_data ''ana'') = Some 28 \<and>
   \<not> contains ''por '' (drop (28 + 4) (invocation_description demo_data ''ana'')) \<and>
   engineer_of (invocation_description demo_data ''ana'') = ''ana'' \<and>
   engineer_of ''Resolucion del incidente'' = ''Unknown''"
proof -
  have a: "find_sub ''por '' (invocation_description demo_data ''ana'') = Some 28"
    by (simp add: invocation_description_def demo_data_def dict_get_def o_acute_def)
  have b: "\<not> contains ''por '' (drop (28 + 4) (invocation_description demo_data ''ana''))"
    by (simp add: invocation_description_def demo_data_def dict_get_def o_acute_def
          contains_def)
  have c: "drop (28 + 4) (invocation_description demo_data ''ana'') = ''ana''"
    by (simp add: invocation_description_def demo_data_def dict_get_def o_acute_def)
  have d: "\<not> contains ''por '' ''Resolucion del incidente''"
    by (simp add: contains_def)
  from engineer_after_marker[of "invocation_description demo_data ''ana''" 28] a b c
    engineer_after_marker[of "''Resolucion del incidente''" 0] d
  show ?thesis by simp
qed

theorem engineer_marker_counterexample:
  "engineer_of ''diagnosis of auth-service by bob'' = ''Unknown'' \<and>
   \<not> contains '' por '' ''por ana'' \<and> \<not> contains '' by '' ''por ana'' \<and>
   engineer_of ''por ana'' = ''ana''"
  by (simp add: engineer_of_def contains_def py_split_def)

section \<open>Claims about the reconstruction\<close>


lemma marker_line:
  assumes "sep \<noteq> []" "find_sub sep s = Some i" "n = i + length sep"
  shows "py_strip (hd (py_split [newline] (py_split sep s ! 1))) =
    py_strip (takeWhile (\<lambda>c. c \<noteq> newline)
      (case find_sub sep (drop n s) of None \<Rightarrow> drop n s | Some j \<Rightarrow> take j (drop n s)))"
  by (simp only: py_split_second_at[OF assms] py_split_line)

text \<open>
  Claim C2, as the code has it. For every text block of a step, the scan fires when the
  lower-cased text contains the Spanish word (\<open>hipotesis\<close>, with its accent), and on
  nothing else; it then appends the record of the text, the timestamp \<open>t\<close> of the step and
  the engineer. The engineer is read after the marker \<open>Ingeniero:\<close>, matched as it is
  written, up to the end of the line and trimmed, and is \<open>Unknown\<close> without the marker.
\<close>

theorem hypothesis_scan:
  assumes "b_text blk = Some txt"
  shows "hypotheses (fst (snd (snd (process_block step_id iid t blk (tc, im, ctx, tr))))) =
           hypotheses ctx @
           (if contains hipotesis (py_lower txt)
            then [\<lparr>hyp_text = txt, hyp_timestamp = t,
                   hyp_engineer = hypothesis_engineer txt\<rparr>]
            else []) \<and>
         (\<not> contains ''Ingeniero:'' txt \<longrightarrow> hypothesis_engineer txt = ''Unknown'') \<and>
         (find_sub ''Ingeniero:'' txt = Some i \<longrightarrow>
            hypothesis_engineer txt =
              py_strip (takeWhile (\<lambda>c. c \<noteq> newline)
                (case find_sub ''Ingeniero:'' (drop (i + 10) txt) of
                   None \<Rightarrow> drop (i + 10) txt
                 | Some j \<Rightarrow> take j (drop (i + 10) txt))))"
proof -
  obtain c1 r1 where s: "scan_text t txt (ctx, tr) = (c1, r1)" by fastforce
  have "hypotheses (fst (snd (snd (process_block step_id iid t blk (tc, im, ctx, tr))))) =
          hypotheses c1"
    unfolding process_block_cases Let_def using assms s
    by (cases "b_image blk") simp_all
  with scan_text_effect(3)[OF s] have 1:
    "hypotheses (fst (snd (snd (process_block step_id iid t blk (tc, im, ctx, tr))))) =
           hypotheses ctx @
           (if contains hipotesis (py_lower txt)
            then [\<lparr>hyp_text = txt, hyp_timestamp = t,
                   hyp_engineer = hypothesis_engineer txt\<rparr>]
            else [])" by simp
  have 2: "\<not> contains ''Ingeniero:'' txt \<longrightarrow> hypothesis_engineer txt = ''Unknown''"
    by (simp add: hypothesis_engineer_def)
  have 3: "hypothesis_engineer txt =
              py_strip (takeWhile (\<lambda>c. c \<noteq> newline)
                (case find_sub ''Ingeniero:'' (drop (i + 10) txt) of
                   None \<Rightarrow> drop (i + 10) txt
                 | Some j \<Rightarrow> take j (drop (i + 10) txt)))"
    if f: "find_sub ''Ingeniero:'' txt = Some i"
  proof -
    from f have "hypothesis_engineer txt =
        py_strip (hd (py_split [newline] (py_split ''Ingeniero:'' txt ! 1)))"
      by (simp add: hypothesis_engineer_def contains_def)
    also have "\<dots> = py_strip (takeWhile (\<lambda>c. c \<noteq> newline)
                (case find_sub ''Ingeniero:'' (drop (i + 10) txt) of
                   None \<Rightarrow> drop (i + 10) txt
                 | Some j \<Rightarrow> take j (drop (i + 10) txt)))"
      by (rule marker_line[OF _ f]) simp_all
    finally show ?thesis .
  qed
  from 1 2 3 show ?thesis by blast
qed

theorem hypothesis_scan_witness:
  "hypotheses (fst (snd (snd (process_block (Some ''a'') ''inv-1'' (TStr ''10:01'')
      (text_block (''HIP'' @ [CHR 0xD3] @ ''TESIS: disco lleno'' @ [newline] @
                   ''Ingeniero: ana''))
      ([], [], empty_context, []))))) =
   [\<lparr>hyp_text = ''HIP'' @ [CHR 0xD3] @ ''TESIS: disco lleno'' @ [newline] @ ''Ingeniero: ana'',
     hyp_timestamp = TStr ''10:01'', hyp_engineer = ''ana''\<rparr>]"
proof -
  let ?txt = "''HIP'' @ [CHR 0xD3] @ ''TESIS: disco lleno'' @ [newline] @ ''Ingeniero: ana''"
  have a: "b_text (text_block ?txt) = Some ?txt" by (simp add: text_block_def)
  have b: "contains hipotesis (py_lower ?txt)"
    by (simp add: contains_def hipotesis_def o_acute_def py_lower_def lower_char_def
          upper_chars_def lower_chars_def newline_def)
  have c: "hypothesis_engineer ?txt = ''ana''"
    by (simp add: hypothesis_engineer_def contains_def py_split_def py_strip_def py_isspace_def
          newline_def)
  from hypothesis_scan[OF a, of "Some ''a''" "''inv-1''" "TStr ''10:01''" "[]" "[]"
         empty_context "[]" 0] b c
  show ?thesis by (simp add: empty_context_def)
qed

theorem hypothesis_scan_counterexample:
  "hypotheses (fst (snd (snd (process_block (Some ''a'') ''inv-1'' (TStr ''10:01'')
      (text_block (''Hypothesis: disk is full'' @ [newline] @ ''Engineer: bob''))
      ([], [], empty_context, []))))) = [] \<and>
   hypothesis_engineer (''Hip'' @ [o_acute] @ ''tesis: disco lleno'' @ [newline] @
                        ''Engineer: bob'') = ''Unknown''"
  by (simp add: process_block_def scan_text_def text_block_def empty_context_def contains_def
        hipotesis_def o_acute_def py_lower_def lower_char_def upper_chars_def lower_chars_def
        newline_def hypothesis_engineer_def Let_def)















text \<open>
  Claim C1, as the code has it. The timeline that \<open>retrieve_diagnostic_context\<close> returns
  has its entries in ascending order of their creation timestamp and, when the gateway
  gives each step the same timestamp in the listing and in the step, the steps of each
  entry in ascending order of their timestamp. Steps are never sorted across entries: the
  flattened sequence is ascending exactly when no step of an earlier entry is later
  than a step of a later entry.
\<close>

theorem timeline_two_level_order:
  assumes "retrieve_diagnostic_context w isof now sid tr = (Some ctx, tr')"
    and "consistent_step_times w sid"
  shows "sorted_wrt (\<lambda>a b. key_le (entry_key a) (entry_key b)) (diagnosticTimeline ctx) \<and>
         (\<forall>e\<in>set (diagnosticTimeline ctx). sorted_wrt time_le (map timestamp (steps e))) \<and>
         (sorted_wrt time_le (flattened (diagnosticTimeline ctx)) \<longleftrightarrow>
          sorted_wrt (\<lambda>a b. \<forall>x\<in>set (steps a). \<forall>y\<in>set (steps b).
                               time_le (timestamp x) (timestamp y))
            (diagnosticTimeline ctx))"
proof -
  from retrieve_Some[OF assms(1)] obtain sorted_invocations ctx0 tr3 where
    c0: "diagnosticTimeline ctx0 = []"
    and f: "finish_context sid (process_invocations w isof sid sorted_invocations (ctx0, tr3)) =
              (Some ctx, tr')"
    by blast
  obtain c1 r1 where p: "process_invocations w isof sid sorted_invocations (ctx0, tr3) = (c1, r1)"
    by fastforce
  from f p have "finish_context sid (c1, r1) = (Some ctx, tr')" by simp
  from finish_context_Some[OF this] have
    s: "py_sorted entry_key (diagnosticTimeline c1) = Inr (diagnosticTimeline ctx)" by simp
  from py_sorted_sorted[OF s] have
    1: "sorted_wrt (\<lambda>a b. key_le (entry_key a) (entry_key b)) (diagnosticTimeline ctx)" .
  have 2: "\<forall>e\<in>set (diagnosticTimeline ctx). sorted_wrt time_le (map timestamp (steps e))"
  proof
    fix e assume "e \<in> set (diagnosticTimeline ctx)"
    with py_sorted_set[OF s] have "e \<in> set (diagnosticTimeline c1)" by simp
    with process_invocations_effect[OF p, of "{}"] c0 assms(2)
    show "sorted_wrt time_le (map timestamp (steps e))" by auto
  qed
  have "sorted_wrt time_le (flattened tls) \<longleftrightarrow>
          sorted_wrt (\<lambda>a b. \<forall>x\<in>set (steps a). \<forall>y\<in>set (steps b).
                               time_le (timestamp x) (timestamp y)) tls"
    if "\<forall>e\<in>set tls. sorted_wrt time_le (map timestamp (steps e))" for tls
    using that unfolding flattened_def sorted_wrt_concat
    by (simp add: sorted_wrt_map)
  from this[OF 2] 1 2 show ?thesis by blast
qed

lemma ordered_world_consistent: "consistent_step_times ordered_world ''s-1''"
  unfolding consistent_step_times_def
  by (auto simp: ordered_world_def table_world_def text_step_def summary_def details_of_def
        details_time_def summary_time_def split: if_splits)

theorem timeline_two_level_order_witness:
  "\<exists>c t. retrieve_diagnostic_context ordered_world no_dates ''10:05'' ''s-1'' [] = (Some c, t) \<and>
         consistent_step_times ordered_world ''s-1'' \<and>
         flattened (diagnosticTimeline c) = [TStr ''10:01'', TStr ''10:02'', TStr ''11:30''] \<and>
         sorted_wrt (\<lambda>a b. key_le (entry_key a) (entry_key b)) (diagnosticTimeline c) \<and>
         (\<forall>e\<in>set (diagnosticTimeline c). sorted_wrt time_le (map timestamp (steps e)))"
proof -
  from ordered_run obtain c t where
    r: "retrieve_diagnostic_context ordered_world no_dates ''10:05'' ''s-1'' [] = (Some c, t)"
    and fl: "flattened (diagnosticTimeline c) = [TStr ''10:01'', TStr ''10:02'', TStr ''11:30'']"
    by blast
  from timeline_two_level_order[OF r ordered_world_consistent] r fl ordered_world_consistent
  show ?thesis by blast
qed

theorem flattened_order_counterexample:
  "fst (retrieve_diagnostic_context crossed_world no_dates ''10:05'' ''s-1'' []) \<noteq> None \<and>
   flattened (diagnosticTimeline
     (the (fst (retrieve_diagnostic_context crossed_world no_dates ''10:05'' ''s-1'' [])))) =
     [TStr ''12:00'', TStr ''11:30''] \<and>
   time_le (TStr ''11:30'') (TStr ''12:00'') \<and> TStr ''11:30'' \<noteq> TStr ''12:00'' \<and>
   \<not> sorted_wrt time_le [TStr ''12:00'', TStr ''11:30'']"
proof -
  from crossed_run obtain c t where
    r: "retrieve_diagnostic_context crossed_world no_dates ''10:05'' ''s-1'' [] = (Some c, t)"
    and fl: "flattened (diagnosticTimeline c) = [TStr ''12:00'', TStr ''11:30'']"
    by blast
  have "time_le (TStr ''11:30'') (TStr ''12:00'')" "\<not> time_le (TStr ''12:00'') (TStr ''11:30'')"
    by (simp_all add: time_le_def time_key_def)
  with r fl show ?thesis by simp
qed

section \<open>The screenshots of a step\<close>

lemma py_split_nonempty: "sep \<noteq> [] \<Longrightarrow> py_split sep s \<noteq> []"
  by (subst py_split_unfold) (simp_all split: option.splits)

lemma last_py_split_char:
  "last (py_split [c] s) = rev (takeWhile (\<lambda>x. x \<noteq> c) (rev s))"
proof (induction "length s" arbitrary: s rule: less_induct)
  case less
  show ?case
  proof (cases "c \<in> set s")
    case False
    then have "takeWhile (\<lambda>x. x \<noteq> c) (rev s) = rev s"
      by (simp add: takeWhile_eq_all_conv) blast
    then have "rev (takeWhile (\<lambda>x. x \<noteq> c) (rev s)) = s" by (simp only: rev_rev_ident)
    moreover from False have "py_split [c] s = [s]"
      by (subst py_split_unfold) (simp_all add: find_sub_char)
    ultimately show ?thesis by (simp del: takeWhile_eq_all_conv)
  next
    case True
    define pre where "pre = takeWhile (\<lambda>x. x \<noteq> c) s"
    define rest where "rest = drop (length pre + 1) s"
    from True have d: "dropWhile (\<lambda>x. x \<noteq> c) s \<noteq> []" by simp
    from True have hd: "hd (dropWhile (\<lambda>x. x \<noteq> c) s) = c"
      using hd_dropWhile[of "\<lambda>x. x \<noteq> c" s] by auto
    have "s = pre @ dropWhile (\<lambda>x. x \<noteq> c) s" by (simp add: pre_def)
    moreover have "dropWhile (\<lambda>x. x \<noteq> c) s = c # rest"
    proof -
      have "dropWhile (\<lambda>x. x \<noteq> c) s = drop (length pre) s"
        by (simp add: pre_def dropWhile_eq_drop)
      moreover from d hd obtain zs where "dropWhile (\<lambda>x. x \<noteq> c) s = c # zs"
        by (cases "dropWhile (\<lambda>x. x \<noteq> c) s") auto
      ultimately show ?thesis
        by (simp add: rest_def) (metis drop_Suc drop_drop list.sel(3) plus_1_eq_Suc tl_drop)
    qed
    ultimately have s: "s = pre @ c # rest" by simp
    then have len: "length rest < length s" by (metis add_Suc_right length_Cons length_append
          less_add_Suc2)
    from True have "py_split [c] s = take (length pre) s # py_split [c] rest"
      by (subst py_split_unfold) (simp_all add: find_sub_char pre_def rest_def)
    with py_split_nonempty[of "[c]" rest] have "last (py_split [c] s) = last (py_split [c] rest)"
      by simp
    also from less[OF len] have "\<dots> = rev (takeWhile (\<lambda>x. x \<noteq> c) (rev rest))" .
    also have "takeWhile (\<lambda>x. x \<noteq> c) (rev rest) = takeWhile (\<lambda>x. x \<noteq> c) (rev s)"
    proof -
      have "rev s = rev rest @ c # rev pre" by (subst s) simp
      then show ?thesis by (simp add: takeWhile_tail)
    qed
    finally show ?thesis .
  qed
qed

lemma img_format_spec: "img_format_of p = spec_format p"
  by (simp add: img_format_of_def spec_format_def file_extension_def last_py_split_char Let_def)

lemma expected_blocks_spec: "expected_blocks fs formatted paths = spec_blocks fs formatted paths"
proof -
  have "(case fs p of Readable b \<Rightarrow> [image_block (img_format_of p) b] | _ \<Rightarrow> []) =
        (case fs p of
           Readable content \<Rightarrow>
             [\<lparr>b_text = None,
               b_image = Some \<lparr>img_format = Some (spec_format p), img_bytes = content\<rparr>\<rparr>]
         | _ \<Rightarrow> [])" for p
    by (cases "fs p") (simp_all add: image_block_def img_format_spec)
  then show ?thesis
    by (simp add: expected_blocks_def spec_blocks_def text_block_def)
qed

text \<open>
  Claim C6. In every run in which the session exists and one of the three attempts of
  invocation creation returns an id, the earlier ones having failed, the step is written
  once, after the attempts, with the formatted text block followed by exactly one image
  block for each path whose file can be read, in the order of the paths. The block holds
  the bytes of the file and the format that the specification gives: the extension of
  the path in lower case when it is png, jpeg, jpg, gif or webp, and png otherwise. A
  path whose file is missing or cannot be read adds no block, and the result of the run
  depends on the answer to the write only.
\<close>

theorem screenshots_become_image_blocks:
  assumes "get_session w (calls_of tr) sid = Inr sr"
    and "d = invocation_description data eng"
    and "create_invocation w (calls_of tr @ [GetSession sid]) sid d = r1"
    and "create_invocation w (calls_of tr @ [GetSession sid, CreateInvocation sid d]) sid d = r2"
    and "create_invocation w
           (calls_of tr @ [GetSession sid, CreateInvocation sid d, CreateInvocation sid d])
           sid d = r3"
    and "r1 = Inr (Some iid) \<and> n = 1 \<or>
         attempt_failed r1 \<and> r2 = Inr (Some iid) \<and> n = 2 \<or>
         attempt_failed r1 \<and> attempt_failed r2 \<and> r3 = Inr (Some iid) \<and> n = 3"
    and "iid \<noteq> []"
    and "run = store_diagnostic_step w fs now step_id sid eng data (Some paths) tr"
    and "blocks = spec_blocks fs (format_data data eng) paths"
    and "answer = put_invocation_step w
                    (calls_of tr @ GetSession sid # replicate n (CreateInvocation sid d))
                    sid iid step_id now blocks"
  shows "calls_of (snd run) =
           calls_of tr @ GetSession sid # replicate n (CreateInvocation sid d) @
           PutInvocationStep sid iid step_id now blocks #
           (case answer of Inl e \<Rightarrow> [] | Inr u \<Rightarrow> [GetInvocationStep sid iid (Some step_id)]) \<and>
         fst run =
           (case answer of Inl e \<Rightarrow> (False, Some iid, None)
            | Inr u \<Rightarrow> (True, Some iid, Some step_id)) \<and>
         length (filter (\<lambda>b. b_image b \<noteq> None) blocks) = length (filter (readable fs) paths)"
proof -
  have cnt: "length (filter (\<lambda>b. b_image b \<noteq> None)
               (concat (map (\<lambda>p. case fs p of
                        Readable content \<Rightarrow>
                          [\<lparr>b_text = None,
                            b_image = Some \<lparr>img_format = Some (spec_format p),
                                            img_bytes = content\<rparr>\<rparr>]
                      | _ \<Rightarrow> []) ps))) = length (filter (readable fs) ps)" for ps
    by (induction ps) (auto simp: readable_def split: file_state.splits)
  then have 3: "length (filter (\<lambda>b. b_image b \<noteq> None) blocks) =
                  length (filter (readable fs) paths)"
    unfolding assms(9) spec_blocks_def by simp
  have f: "\<not> falsy (Some iid)" using assms(7) by (simp add: falsy_def)
  from assms(6) consider (one) "r1 = Inr (Some iid)" "n = 1"
    | (two) "attempt_failed r1" "r2 = Inr (Some iid)" "n = 2"
    | (three) "attempt_failed r1" "attempt_failed r2" "r3 = Inr (Some iid)" "n = 3"
    by blast
  then have "calls_of (snd run) =
           calls_of tr @ GetSession sid # replicate n (CreateInvocation sid d) @
           PutInvocationStep sid iid step_id now blocks #
           (case answer of Inl e \<Rightarrow> [] | Inr u \<Rightarrow> [GetInvocationStep sid iid (Some step_id)]) \<and>
         fst run =
           (case answer of Inl e \<Rightarrow> (False, Some iid, None)
            | Inr u \<Rightarrow> (True, Some iid, Some step_id))"
  proof cases
    case one
    with assms(3) f show ?thesis
      unfolding assms(8) assms(10) assms(9) store_with_session[OF assms(1)] assms(2)[symmetric]
      by (simp add: write_step_calls write_step_result expected_blocks_spec)
  next
    case two
    with assms(3,4) f show ?thesis
      unfolding assms(8) assms(10) assms(9) store_with_session[OF assms(1)] assms(2)[symmetric]
      by (cases r1)
         (simp_all add: attempt_failed_def write_step_calls write_step_result
            expected_blocks_spec eval_nat_numeral)
  next
    case three
    with assms(3,4,5) f show ?thesis
      unfolding assms(8) assms(10) assms(9) store_with_session[OF assms(1)] assms(2)[symmetric]
      by (cases r1; cases r2)
         (simp_all add: attempt_failed_def write_step_calls write_step_result
            expected_blocks_spec eval_nat_numeral)
  qed
  with 3 show ?thesis by blast
qed

theorem screenshots_become_image_blocks_witness:
  "calls_of (snd (store_diagnostic_step retrying_world demo_fs ''2024-05-01T10:05:00''
                    ''step-1'' ''s-1'' ''ana'' demo_data
                    (Some [''shots/cpu.JPG'', ''shots/missing.png'']) [])) =
     [GetSession ''s-1'',
      CreateInvocation ''s-1'' (invocation_description demo_data ''ana''),
      CreateInvocation ''s-1'' (invocation_description demo_data ''ana''),
      PutInvocationStep ''s-1'' ''inv-1'' ''step-1'' ''2024-05-01T10:05:00''
        [\<lparr>b_text = Some (format_data demo_data ''ana''), b_image = None\<rparr>,
         \<lparr>b_text = None,
          b_image = Some \<lparr>img_format = Some ''jpg'', img_bytes = [0xFF, 0xD8]\<rparr>\<rparr>],
      GetInvocationStep ''s-1'' ''inv-1'' (Some ''step-1'')] \<and>
   fst (store_diagnostic_step retrying_world demo_fs ''2024-05-01T10:05:00''
          ''step-1'' ''s-1'' ''ana'' demo_data
          (Some [''shots/cpu.JPG'', ''shots/missing.png'']) []) =
     (True, Some ''inv-1'', Some ''step-1'') \<and>
   spec_blocks demo_fs (format_data demo_data ''ana'') [''shots/locked.png'', ''shots/mem.bmp''] =
     [\<lparr>b_text = Some (format_data demo_data ''ana''), b_image = None\<rparr>,
      \<lparr>b_text = None,
       b_image = Some \<lparr>img_format = Some ''png'', img_bytes = [0x42, 0x4D]\<rparr>\<rparr>]"
proof -
  let ?d = "invocation_description demo_data ''ana''"
  let ?paths = "[''shots/cpu.JPG'', ''shots/missing.png'']"
  have a: "get_session retrying_world (calls_of []) ''s-1'' = Inr demo_session"
    by (simp add: retrying_world_def)
  have r1: "create_invocation retrying_world (calls_of [] @ [GetSession ''s-1'']) ''s-1'' ?d =
              Inl throttled"
    by (simp add: retrying_world_def)
  have r2: "create_invocation retrying_world
              (calls_of [] @ [GetSession ''s-1'', CreateInvocation ''s-1'' ?d]) ''s-1'' ?d =
              Inr (Some ''inv-1'')"
    by (simp add: retrying_world_def)
  have c: "Inl throttled = Inr (Some ''inv-1'') \<and> (2::nat) = 1 \<or>
           attempt_failed (Inl throttled) \<and> Inr (Some ''inv-1'') = Inr (Some ''inv-1'') \<and>
             (2::nat) = 2 \<or>
           attempt_failed (Inl throttled) \<and> attempt_failed (Inr (Some ''inv-1'')) \<and>
             create_invocation retrying_world
               (calls_of [] @ [GetSession ''s-1'', CreateInvocation ''s-1'' ?d,
                               CreateInvocation ''s-1'' ?d]) ''s-1'' ?d =
               Inr (Some ''inv-1'') \<and> (2::nat) = 3"
    by (simp add: attempt_failed_def)
  have i: "''inv-1'' \<noteq> []" by simp
  have e: "spec_blocks demo_fs (format_data demo_data ''ana'') ?paths =
           [\<lparr>b_text = Some (format_data demo_data ''ana''), b_image = None\<rparr>,
            \<lparr>b_text = None,
             b_image = Some \<lparr>img_format = Some ''jpg'', img_bytes = [0xFF, 0xD8]\<rparr>\<rparr>]"
    by (simp add: spec_blocks_def demo_fs_def spec_format_def file_extension_def py_lower_def
          lower_char_def upper_chars_def lower_chars_def)
  have e2: "spec_blocks demo_fs (format_data demo_data ''ana'')
              [''shots/locked.png'', ''shots/mem.bmp''] =
     [\<lparr>b_text = Some (format_data demo_data ''ana''), b_image = None\<rparr>,
      \<lparr>b_text = None,
       b_image = Some \<lparr>img_format = Some ''png'', img_bytes = [0x42, 0x4D]\<rparr>\<rparr>]"
    by (simp add: spec_blocks_def demo_fs_def spec_format_def file_extension_def py_lower_def
          lower_char_def upper_chars_def lower_chars_def)
  have p: "put_invocation_step retrying_world h ''s-1'' ''inv-1'' ''step-1''
             ''2024-05-01T10:05:00'' bs = Inr ()" for h bs
    by (simp add: retrying_world_def)
  from screenshots_become_image_blocks[OF a refl r1 r2 refl c i refl refl refl,
         where fs = demo_fs and now = "''2024-05-01T10:05:00''" and step_id = "''step-1''"
           and paths = ?paths]
  show ?thesis
    unfolding e p using e2 by (simp add: eval_nat_numeral)
qed

end
